theory Spec2Isabelle
  imports Main "HOL-Library.Sublist" "HOL-Library.AList" "HOL-Library.Word"
begin

section \<open>Go strings and the library functions used by format/print.go\<close>

text \<open>
  A Go string is a sequence of bytes; \<open>len\<close>, slicing, \<open>strings.Index\<close>,
  \<open>strings.Split\<close>, \<open>strings.HasSuffix\<close> and \<open>strings.TrimSuffix\<close> all work on
  bytes. HOL's \<^typ>\<open>string\<close> is a list of 8-bit characters, so it is used as it is.
  Go's \<open>int\<close> is modelled as \<^typ>\<open>int\<close>: the only integers computed here are
  lengths and indices of strings held in memory (and \<open>-1\<close> for "not found"),
  which never reach the 64-bit range.
\<close>

datatype panic =
    IndexOutOfRange int nat        \<comment> \<open>index out of range [i] with length n\<close>
  | SliceBoundsOutOfRange int nat  \<comment> \<open>slice bounds out of range [:i] with length n\<close>
  | InterfaceConversion            \<comment> \<open>type assertion on a nil interface value\<close>
  | NilPointerDereference
  | NilMapAssignment               \<comment> \<open>assignment to entry in nil map\<close>

definition HasSuffix :: "string \<Rightarrow> string \<Rightarrow> bool" where
  "HasSuffix s suf = suffix suf s"

definition TrimSuffix :: "string \<Rightarrow> string \<Rightarrow> string" where
  "TrimSuffix s suf = (if HasSuffix s suf then take (length s - length suf) s else s)"

text \<open>Byte offset of the first (last) occurrence of \<open>sep\<close> in a string, if any.\<close>

primrec first_index :: "string \<Rightarrow> string \<Rightarrow> nat option" where
  "first_index sep [] = (if sep = [] then Some 0 else None)"
| "first_index sep (c # cs) =
     (if prefix sep (c # cs) then Some 0 else map_option Suc (first_index sep cs))"

primrec last_index :: "string \<Rightarrow> string \<Rightarrow> nat option" where
  "last_index sep [] = (if sep = [] then Some 0 else None)"
| "last_index sep (c # cs) =
     (case last_index sep cs of
        Some i \<Rightarrow> Some (Suc i)
      | None \<Rightarrow> if prefix sep (c # cs) then Some 0 else None)"

text \<open>\<open>strings.Index\<close> and \<open>strings.LastIndex\<close>: the offset, or \<open>-1\<close>.\<close>

definition Index :: "string \<Rightarrow> string \<Rightarrow> int" where
  "Index s sep = (case first_index sep s of None \<Rightarrow> - 1 | Some i \<Rightarrow> int i)"

definition LastIndex :: "string \<Rightarrow> string \<Rightarrow> int" where
  "LastIndex s sep = (case last_index sep s of None \<Rightarrow> - 1 | Some i \<Rightarrow> int i)"

text \<open>
  \<open>strings.Split(s, sep)\<close> for a non-empty separator, as the library's \<open>genSplit\<close>
  computes it: cut at the first occurrence, continue behind it, and end with the rest.
  The program only ever splits on \<open>" --> "\<close> and \<open>" "\<close>; the empty separator (which
  Go explodes into UTF-8 sequences) is not used and is given the unsplit string here.
\<close>

function Split :: "string \<Rightarrow> string \<Rightarrow> string list" where
  "Split s sep =
     (if sep = [] then [s]
      else case first_index sep s of
             None \<Rightarrow> [s]
           | Some m \<Rightarrow> take m s # Split (drop (m + length sep) s) sep)"
  by pat_completeness auto
termination
proof (relation "measure (\<lambda>(s, sep). length s)")
  show "wf (measure (\<lambda>(s, sep). length s))" by simp
next
  fix s sep :: string and m :: nat
  assume sep: "sep \<noteq> []" and m: "first_index sep s = Some m"
  from sep m have "s \<noteq> []" by (cases s) auto
  with sep show "((drop (m + length sep) s, sep), (s, sep)) \<in> measure (\<lambda>(s, sep). length s)"
    by simp
qed

declare Split.simps [simp del]

text \<open>\<open>strings.Join\<close>.\<close>

fun Join :: "string list \<Rightarrow> string \<Rightarrow> string" where
  "Join [] sep = []"
| "Join [x] sep = x"
| "Join (x # y # ys) sep = x @ sep @ Join (y # ys) sep"

text \<open>
  \<open>strings.TrimSpace\<close> removes leading and trailing white space as defined by Unicode.
  A decoded rune is white space exactly when the bytes in front of the cursor are the
  UTF-8 encoding of one of the code points that \<open>unicode.IsSpace\<close> accepts
  (U+0009..U+000D, U+0020, U+0085, U+00A0, U+1680, U+2000..U+200A, U+2028, U+2029,
  U+202F, U+205F, U+3000); an invalid byte decodes to U+FFFD, which is not white space.
  So trimming is the repeated removal of one of these encodings from the front, then
  from the back.
\<close>

definition space_encodings :: "string list" where
  "space_encodings =
     [[CHR 0x09], [CHR 0x0A], [CHR 0x0B], [CHR 0x0C], [CHR 0x0D], [CHR 0x20],
      [CHR 0xC2, CHR 0x85], [CHR 0xC2, CHR 0xA0],
      [CHR 0xE1, CHR 0x9A, CHR 0x80],
      [CHR 0xE2, CHR 0x80, CHR 0x80], [CHR 0xE2, CHR 0x80, CHR 0x81],
      [CHR 0xE2, CHR 0x80, CHR 0x82], [CHR 0xE2, CHR 0x80, CHR 0x83],
      [CHR 0xE2, CHR 0x80, CHR 0x84], [CHR 0xE2, CHR 0x80, CHR 0x85],
      [CHR 0xE2, CHR 0x80, CHR 0x86], [CHR 0xE2, CHR 0x80, CHR 0x87],
      [CHR 0xE2, CHR 0x80, CHR 0x88], [CHR 0xE2, CHR 0x80, CHR 0x89],
      [CHR 0xE2, CHR 0x80, CHR 0x8A],
      [CHR 0xE2, CHR 0x80, CHR 0xA8], [CHR 0xE2, CHR 0x80, CHR 0xA9],
      [CHR 0xE2, CHR 0x80, CHR 0xAF],
      [CHR 0xE2, CHR 0x81, CHR 0x9F],
      [CHR 0xE3, CHR 0x80, CHR 0x80]]"

text \<open>Number of bytes of the white-space rune a string starts with; 0 if it starts with none.\<close>

definition space_width :: "string list \<Rightarrow> string \<Rightarrow> nat" where
  "space_width encs s = (case find (\<lambda>e. prefix e s) encs of None \<Rightarrow> 0 | Some e \<Rightarrow> length e)"

fun trim_front :: "string list \<Rightarrow> string \<Rightarrow> string" where
  "trim_front encs [] = []"
| "trim_front encs (c # cs) =
     (case space_width encs (c # cs) of
        0 \<Rightarrow> c # cs
      | Suc k \<Rightarrow> trim_front encs (drop k cs))"

definition TrimLeftSpace :: "string \<Rightarrow> string" where
  "TrimLeftSpace s = trim_front space_encodings s"

definition TrimRightSpace :: "string \<Rightarrow> string" where
  "TrimRightSpace s = rev (trim_front (map rev space_encodings) (rev s))"

definition TrimSpace :: "string \<Rightarrow> string" where
  "TrimSpace s = TrimRightSpace (TrimLeftSpace s)"

text \<open>The slice expression \<open>s[:hi]\<close>, which panics when \<open>hi\<close> is outside \<open>0..len(s)\<close>.\<close>

definition slice_to :: "string \<Rightarrow> int \<Rightarrow> panic + string" where
  "slice_to s hi =
     (if hi < 0 \<or> int (length s) < hi then Inl (SliceBoundsOutOfRange hi (length s))
      else Inr (take (nat hi) s))"

section \<open>The record parser of PrintEnumerationSummary\<close>

text \<open>
  The local map \<open>asns\<close> holds, for every ASN id, a map with exactly the keys
  \<open>"organization"\<close>, \<open>"netblocks"\<close> and \<open>"fqdns"\<close>: entries are only ever created by the
  composite literal of the ASN branch. An entry is therefore a record of the three
  values. Netblocks and FQDNs are Go slices (\<open>[]string\<close>) grown with \<open>append\<close>: lists.

  A Go map is modelled as an association list with distinct keys: lookup is
  \<^const>\<open>map_of\<close>, \<open>m[k] = v\<close> is \<^const>\<open>AList.update\<close>, \<open>len(m)\<close> is the length. The
  position of an entry in the list has no meaning for the parser.
\<close>

record asn_details =
  organization :: string
  netblocks :: "string list"
  fqdn_list :: "string list"   \<comment> \<open>the value under the key \<open>"fqdns"\<close>\<close>

record summary =
  asns :: "(string \<times> asn_details) list"
  fqdns :: "(string \<times> string) list"

definition empty_summary :: summary where
  "empty_summary = \<lparr>asns = [], fqdns = []\<rparr>"

text \<open>
  The two fan-out range statements \<open>for asnID := range asns { asns[asnID][key] = append(..., x) }\<close>
  have the same shape: the loop visits the keys in some order; for each key it reads the
  entry, appends to one of its slices and writes the entry back. Reading a key that is
  not in the map would yield a nil interface value, on which the type assertion panics.
\<close>

fun range_append :: "(asn_details \<Rightarrow> asn_details) \<Rightarrow> string list
    \<Rightarrow> (string \<times> asn_details) list \<Rightarrow> panic + (string \<times> asn_details) list" where
  "range_append f [] m = Inr m"
| "range_append f (asnID # ks) m =
     (case map_of m asnID of
        None \<Rightarrow> Inl InterfaceConversion
      | Some d \<Rightarrow> range_append f ks (AList.update asnID (f d) m))"

definition attach_netblock :: "string \<Rightarrow> (string \<times> asn_details) list
    \<Rightarrow> panic + (string \<times> asn_details) list" where
  "attach_netblock ntblocks m =
     range_append (\<lambda>d. d\<lparr>netblocks := netblocks d @ [ntblocks]\<rparr>) (map fst m) m"

definition attach_fqdn :: "string \<Rightarrow> (string \<times> asn_details) list
    \<Rightarrow> panic + (string \<times> asn_details) list" where
  "attach_fqdn left m =
     range_append (\<lambda>d. d\<lparr>fqdn_list := fqdn_list d @ [left]\<rparr>) (map fst m) m"

text \<open>
  The classification of one relation (lines 77 to 105), given the trimmed first and
  third segment of the record.
\<close>

definition classify_relation :: "summary \<Rightarrow> string \<Rightarrow> string \<Rightarrow> panic + summary" where
  "classify_relation st left value =
     (if HasSuffix value '' (Netblock)'' then
        (let ntblocks = TrimSuffix value '' (Netblock)'' in
         case attach_netblock ntblocks (asns st) of
           Inl e \<Rightarrow> Inl e
         | Inr m \<Rightarrow> Inr (st\<lparr>asns := m\<rparr>))
      else if HasSuffix left ''(ASN)'' then
        (case slice_to left (int (length left) - int (length '' (ASN)'')) of
           Inl e \<Rightarrow> Inl e
         | Inr asnID \<Rightarrow>
             let asnDetails = Split value '' '' in
             if 2 \<le> length asnDetails \<and> HasSuffix value ''(RIROrganization)'' then
               Inr (st\<lparr>asns := AList.update asnID
                      \<lparr>organization = TrimSuffix value '' (RIROrganization)'',
                       netblocks = [], fqdn_list = []\<rparr> (asns st)\<rparr>)
             else Inr st)
      else if HasSuffix left ''(FQDN)'' then
        (if HasSuffix left ''(FQDN)'' \<and> HasSuffix value ''(IPAddress)'' then
           (let fq = AList.update left value (fqdns st) in
            case attach_fqdn left (asns st) of
              Inl e \<Rightarrow> Inl e
            | Inr m \<Rightarrow> Inr (st\<lparr>asns := m, fqdns := fq\<rparr>))
         else Inr (st\<lparr>fqdns := AList.update left value (fqdns st)\<rparr>))
      else Inr st)"

text \<open>The body of the loop over the records (lines 69 to 105), for one record.\<close>

definition process_record :: "summary \<Rightarrow> string \<Rightarrow> panic + summary" where
  "process_record st record =
     (let parts = Split record '' --> '' in
      if length parts < 3 then Inr st
      else classify_relation st (TrimSpace (parts ! 0)) (TrimSpace (parts ! 2)))"

text \<open>The loop over all records (lines 68 to 106); a panic ends it.\<close>

fun parse_records :: "summary \<Rightarrow> string list \<Rightarrow> panic + summary" where
  "parse_records st [] = Inr st"
| "parse_records st (record # records) =
     (case process_record st record of
        Inl e \<Rightarrow> Inl e
      | Inr st' \<Rightarrow> parse_records st' records)"

text \<open>The parser starts from two empty maps.\<close>

definition summarize :: "string list \<Rightarrow> panic + summary" where
  "summarize records = parse_records empty_summary records"

text \<open>The representation invariant of the two Go maps: no key occurs twice.\<close>

definition distinct_keys :: "summary \<Rightarrow> bool" where
  "distinct_keys st \<longleftrightarrow> distinct (map fst (asns st)) \<and> distinct (map fst (fqdns st))"

text \<open>The trimmed first and third segment of a record, as the loop body names them.\<close>

definition record_left :: "string \<Rightarrow> string" where
  "record_left record = TrimSpace (Split record '' --> '' ! 0)"

definition record_value :: "string \<Rightarrow> string" where
  "record_value record = TrimSpace (Split record '' --> '' ! 2)"

section \<open>The file report\<close>

text \<open>
  \<open>%d\<close> of a Go \<open>int\<close>: the decimal digits, with a sign for negative numbers.
\<close>

fun digits :: "nat \<Rightarrow> string" where
  "digits n = (if n < 10 then [char_of (48 + n)] else digits (n div 10) @ [char_of (48 + n mod 10)])"

declare digits.simps [simp del]

definition Itoa :: "int \<Rightarrow> string" where
  "Itoa i = (if i < 0 then CHR ''-'' # digits (nat (- i)) else digits (nat i))"

text \<open>
  The file is the sequence of strings written to it. The environment decides whether
  \<open>os.Create\<close> succeeds and how many calls of \<open>WriteString\<close> succeed before one fails:
  an open file is the number of writes that will still succeed together with what has
  been written. A failed write is taken to leave the file as it was.
\<close>

datatype io_error =
    CreateFailed      \<comment> \<open>"failed to create file"\<close>
  | WriteASNFailed    \<comment> \<open>"failed to write ASN details"\<close>
  | WriteFQDNFailed   \<comment> \<open>"failed to write FQDN details"\<close>

type_synonym open_file = "nat \<times> string list"

fun WriteString :: "open_file \<Rightarrow> string \<Rightarrow> open_file option" where
  "WriteString (0, out) s = None"
| "WriteString (Suc q, out) s = Some (q, out @ [s])"

text \<open>
  The inner loop over \<open>fqdns\<close> (lines 205 to 216); the map is called \<open>fqdns_map\<close> here.
  A range loop visits a map in an order that the runtime chooses anew each time the loop
  is entered. The loop is therefore given the entries in the order of this one visit (the
  second argument), apart from the map itself (the first argument), which it reads for
  \<open>fqdns[ip]\<close>: the empty string for a key that is not in the map.
\<close>

fun write_fqdn_lines :: "(string \<times> string) list \<Rightarrow> (string \<times> string) list \<Rightarrow> open_file
    \<Rightarrow> open_file \<times> io_error option" where
  "write_fqdn_lines fqdns_map [] f = (f, None)"
| "write_fqdn_lines fqdns_map ((fqdn, ip) # rest) f =
     (let line =
        (if HasSuffix ip ''(FQDN)'' then
           (let tmpIP = (case map_of fqdns_map ip of None \<Rightarrow> [] | Some v \<Rightarrow> v) in
            TrimSuffix fqdn '' (FQDN)'' @ '': '' @ TrimSuffix tmpIP '' (IPAddress)'' @ [CHR 0x0A])
         else
            TrimSuffix fqdn '' (FQDN)'' @ '': '' @ TrimSuffix ip '' (IPAddress)'' @ [CHR 0x0A])
      in case WriteString f line of
           None \<Rightarrow> (f, Some WriteFQDNFailed)
         | Some f' \<Rightarrow> write_fqdn_lines fqdns_map rest f')"

text \<open>
  The outer loop over \<open>asns\<close> (lines 195 to 217). Its second list argument is the entries
  of \<open>asns\<close> in the order in which this loop visits them. The inner loop is entered once
  for every ASN, each time with an order of its own: \<open>visit asnID\<close> is the entries of
  \<open>fqdns\<close> in the order in which they are visited while the block of \<open>asnID\<close> is written
  (in a run of the program, some arrangement of the entries of the map). No statement
  below restricts \<open>visit\<close> or the order of the ASN entries.
\<close>

fun write_asn_blocks :: "(string \<Rightarrow> (string \<times> string) list) \<Rightarrow> (string \<times> string) list
    \<Rightarrow> (string \<times> asn_details) list \<Rightarrow> open_file \<Rightarrow> open_file \<times> io_error option" where
  "write_asn_blocks visit fqdns_map [] f = (f, None)"
| "write_asn_blocks visit fqdns_map ((asnID, details) # rest) f =
     (let org = organization details;
          nbs = Join (netblocks details) '', ''
      in case WriteString f
             (''ASN: '' @ asnID @ '' - '' @ org @ [CHR 0x0A, CHR 0x09] @
              ''Netblocks: '' @ nbs @ [CHR 0x0A, CHR 0x09] @
              ''Subdomains: '' @ Itoa (int (length fqdns_map)) @ [CHR 0x0A]) of
           None \<Rightarrow> (f, Some WriteASNFailed)
         | Some f1 \<Rightarrow>
             (case write_fqdn_lines fqdns_map (visit asnID) f1 of
                (f2, Some e) \<Rightarrow> (f2, Some e)
              | (f2, None) \<Rightarrow> write_asn_blocks visit fqdns_map rest f2))"

text \<open>
  \<open>SaveASNDetailsToFile\<close>: \<open>disk filename\<close> is \<open>None\<close> when the file cannot be created and
  \<open>Some q\<close> when it is created (empty) and the first \<open>q\<close> writes succeed. The result is the
  content of the file, if there is one, and the error returned. \<open>asns_visit\<close> is the
  entries of \<open>asns\<close> in the order of the outer loop, \<open>visit\<close> gives the orders of the inner
  loop, and \<open>fqdns_map\<close> is the map \<open>fqdns\<close>.
\<close>

definition SaveASNDetailsToFile :: "(string \<Rightarrow> nat option) \<Rightarrow> (string \<Rightarrow> (string \<times> string) list)
    \<Rightarrow> string \<Rightarrow> (string \<times> asn_details) list \<Rightarrow> (string \<times> string) list
    \<Rightarrow> string list option \<times> io_error option" where
  "SaveASNDetailsToFile disk visit filename asns_visit fqdns_map =
     (case disk filename of
        None \<Rightarrow> (None, Some CreateFailed)
      | Some q \<Rightarrow>
          (case write_asn_blocks visit fqdns_map asns_visit (q, []) of
             ((q', out), err) \<Rightarrow> (Some out, err)))"

text \<open>
  \<open>PrintEnumerationSummary\<close> parses the records and saves the two maps to the file
  \<open><target>_<date>.txt\<close>; the date is that of the call and is a parameter here, and so
  are the choices of the runtime: \<open>asns_order\<close> arranges the entries of \<open>asns\<close> for the
  outer loop of the save, and \<open>fqdns_order asnID\<close> arranges the entries of \<open>fqdns\<close> for the
  inner loop of the block of \<open>asnID\<close>. The argument \<open>total\<close> is not used by the function,
  and the coloured message about the outcome of the save goes to the terminal only.
\<close>

definition PrintEnumerationSummary :: "(string \<Rightarrow> nat option)
    \<Rightarrow> ((string \<times> asn_details) list \<Rightarrow> (string \<times> asn_details) list)
    \<Rightarrow> (string \<Rightarrow> (string \<times> string) list \<Rightarrow> (string \<times> string) list)
    \<Rightarrow> string \<Rightarrow> int \<Rightarrow> string list \<Rightarrow> string
    \<Rightarrow> panic + (string list option \<times> io_error option)" where
  "PrintEnumerationSummary disk asns_order fqdns_order currentDate total' records target =
     (case summarize records of
        Inl e \<Rightarrow> Inl e
      | Inr st \<Rightarrow>
          Inr (SaveASNDetailsToFile disk (\<lambda>asnID. fqdns_order asnID (fqdns st))
                 (target @ ''_'' @ currentDate @ ''.txt'')
                 (asns_order (asns st)) (fqdns st)))"

text \<open>
  The report as the specification words it: per ASN a header of three lines, the third
  being \<open>Subdomains: N\<close> for a number \<open>N\<close> given from outside, followed by one line per FQDN,
  in the order in which the FQDNs are visited for that ASN.
\<close>

definition report_fqdn_line :: "(string \<times> string) list \<Rightarrow> string \<times> string \<Rightarrow> string" where
  "report_fqdn_line fqdns_map e =
     TrimSuffix (fst e) '' (FQDN)'' @ '': '' @
     TrimSuffix (if HasSuffix (snd e) ''(FQDN)''
                 then (case map_of fqdns_map (snd e) of None \<Rightarrow> [] | Some v \<Rightarrow> v)
                 else snd e) '' (IPAddress)'' @ [CHR 0x0A]"

definition report_header :: "nat \<Rightarrow> string \<Rightarrow> asn_details \<Rightarrow> string" where
  "report_header N asnID details =
     ''ASN: '' @ asnID @ '' - '' @ organization details @ [CHR 0x0A, CHR 0x09] @
     ''Netblocks: '' @ Join (netblocks details) '', '' @ [CHR 0x0A, CHR 0x09] @
     ''Subdomains: '' @ Itoa (int N) @ [CHR 0x0A]"

definition report_with_count :: "nat \<Rightarrow> (string \<Rightarrow> (string \<times> string) list)
    \<Rightarrow> (string \<times> asn_details) list \<Rightarrow> (string \<times> string) list \<Rightarrow> string list" where
  "report_with_count N visit asns_visit fqdns_map =
     concat (map (\<lambda>(asnID, details).
        report_header N asnID details # map (report_fqdn_line fqdns_map) (visit asnID))
        asns_visit)"

section \<open>The structured path: UpdateSummaryData\<close>

text \<open>
  Modelled from the spec: the declarations of \<open>requests.Output\<close> and
  \<open>requests.AddressInfo\<close> are not among the sources; the records below have the fields
  that print.go reads (the spec's AddressRecord: IP address, CIDR string, ASN id,
  organization description). The address is kept in its printed form.
\<close>

record AddressInfo =
  Address :: string
  ASN :: int
  CIDRStr :: string
  Description :: string

record Output =
  Name :: string
  Addresses :: "AddressInfo list"

text \<open>
  \<open>ASNSummaryData\<close> (lines 57 to 60). The counters are Go \<open>int\<close>s that are incremented,
  so they are 64-bit words. A Go map value may be nil (\<open>None\<close>): reading it yields the
  zero value, writing to it panics.
\<close>

record ASNSummaryData =
  SummaryName :: string                              \<comment> \<open>the field \<open>Name\<close>\<close>
  Netblocks :: "(string \<times> 64 word) list option"

text \<open>
  The map \<open>asns\<close> holds pointers: two keys may share one summary, and the increment goes
  through the pointer. The store is the list of allocated summaries; a pointer is an
  index into it or nil (\<open>None\<close>), and \<open>&ASNSummaryData{...}\<close> allocates at the end. Go
  has no dangling pointers, so every pointer of a state is below the length of the store
  (\<open>valid_store\<close>); the model answers a pointer outside it like a nil pointer. The map
  \<open>asns\<close> itself and \<open>output\<close> are taken to be allocated, and every summary to own its
  \<open>Netblocks\<close> map, as the summaries that this function creates do.
\<close>

type_synonym ptr = nat

record asn_store =
  table :: "(int \<times> ptr option) list"
  heap :: "ASNSummaryData list"

definition empty_store :: asn_store where
  "empty_store = \<lparr>table = [], heap = []\<rparr>"

definition valid_store :: "asn_store \<Rightarrow> bool" where
  "valid_store s \<longleftrightarrow>
     distinct (map fst (table s)) \<and>
     list_all (\<lambda>(k, p). case p of None \<Rightarrow> True | Some a \<Rightarrow> a < length (heap s)) (table s)"

text \<open>The body of the loop (lines 224 to 237), for one address.\<close>

definition update_address :: "asn_store \<Rightarrow> AddressInfo \<Rightarrow> panic + asn_store" where
  "update_address s addr =
     (if CIDRStr addr = [] then Inr s
      else
        let (data, s1) =
              (case map_of (table s) (ASN addr) of
                 Some p \<Rightarrow> (p, s)
               | None \<Rightarrow>
                   (let p = length (heap s) in
                    (Some p,
                     s\<lparr>table := AList.update (ASN addr) (Some p) (table s),
                       heap := heap s @
                         [\<lparr>SummaryName = Description addr, Netblocks = Some []\<rparr>]\<rparr>)))
        in
        case data of
          None \<Rightarrow> Inl NilPointerDereference
        | Some p \<Rightarrow>
            if length (heap s1) \<le> p then Inl NilPointerDereference
            else
              (case Netblocks (heap s1 ! p) of
                 None \<Rightarrow> Inl NilMapAssignment
               | Some nb \<Rightarrow>
                   let count = (case map_of nb (CIDRStr addr) of None \<Rightarrow> 0 | Some c \<Rightarrow> c)
                   in Inr (s1\<lparr>heap := (heap s1)
                        [p := (heap s1 ! p)
                           \<lparr>Netblocks := Some (AList.update (CIDRStr addr) (count + 1) nb)\<rparr>]\<rparr>)))"

fun update_addresses :: "asn_store \<Rightarrow> AddressInfo list \<Rightarrow> panic + asn_store" where
  "update_addresses s [] = Inr s"
| "update_addresses s (addr # addrs) =
     (case update_address s addr of
        Inl e \<Rightarrow> Inl e
      | Inr s' \<Rightarrow> update_addresses s' addrs)"

definition UpdateSummaryData :: "Output \<Rightarrow> asn_store \<Rightarrow> panic + asn_store" where
  "UpdateSummaryData output s = update_addresses s (Addresses output)"

section \<open>The redactor\<close>

text \<open>
  \<open>[]rune(input)\<close> decodes UTF-8: each rune is a Unicode code point, and every byte
  that does not start a valid encoding becomes U+FFFD, one byte at a time.
  \<open>string(runes)\<close> encodes again. A rune is an \<open>int32\<close>; it is an \<^typ>\<open>int\<close> here, since a
  decoded rune lies between 0 and 0x10FFFF and the program computes with none.
  \<open>DecodeRune\<close> follows \<open>utf8.DecodeRuneInString\<close>: the first
  byte gives the size and the range accepted for the second byte.
\<close>

type_synonym rune = int

definition RuneError :: rune where
  "RuneError = 0xFFFD"

definition accept_range :: "int \<Rightarrow> int \<times> int" where
  "accept_range b0 =
     (if b0 = 0xE0 then (0xA0, 0xBF)
      else if b0 = 0xED then (0x80, 0x9F)
      else if b0 = 0xF0 then (0x90, 0xBF)
      else if b0 = 0xF4 then (0x80, 0x8F)
      else (0x80, 0xBF))"

definition DecodeRune :: "string \<Rightarrow> rune \<times> nat" where
  "DecodeRune s =
     (case map of_char s of
        [] \<Rightarrow> (RuneError, 0)
      | b0 # bs \<Rightarrow>
          if b0 < 0x80 then (b0, 1)
          else if b0 < 0xC2 \<or> 0xF4 < b0 then (RuneError, 1)
          else
            let sz = (if b0 < 0xE0 then 2 else if b0 < 0xF0 then 3 else (4::nat));
                (lo, hi) = accept_range b0
            in
            if length s < sz then (RuneError, 1)
            else if bs ! 0 < lo \<or> hi < bs ! 0 then (RuneError, 1)
            else if sz \<le> 2 then (b0 mod 32 * 64 + bs ! 0 mod 64, 2)
            else if bs ! 1 < 0x80 \<or> 0xBF < bs ! 1 then (RuneError, 1)
            else if sz \<le> 3 then (b0 mod 16 * 4096 + bs ! 0 mod 64 * 64 + bs ! 1 mod 64, 3)
            else if bs ! 2 < 0x80 \<or> 0xBF < bs ! 2 then (RuneError, 1)
            else (b0 mod 8 * 262144 + bs ! 0 mod 64 * 4096 + bs ! 1 mod 64 * 64
                  + bs ! 2 mod 64, 4))"

fun runes_of :: "string \<Rightarrow> rune list" where
  "runes_of [] = []"
| "runes_of (c # cs) =
     (case DecodeRune (c # cs) of (r, n) \<Rightarrow> r # runes_of (drop (n - 1) cs))"

definition EncodeRune :: "rune \<Rightarrow> string" where
  "EncodeRune r =
     (if r < 0 then [CHR 0xEF, CHR 0xBF, CHR 0xBD]
      else if r < 0x80 then [char_of r]
      else if r < 0x800 then [char_of (0xC0 + r div 64), char_of (0x80 + r mod 64)]
      else if (0xD800 \<le> r \<and> r \<le> 0xDFFF) \<or> 0x10FFFF < r then [CHR 0xEF, CHR 0xBF, CHR 0xBD]
      else if r < 0x10000 then
        [char_of (0xE0 + r div 4096), char_of (0x80 + r div 64 mod 64),
         char_of (0x80 + r mod 64)]
      else
        [char_of (0xF0 + r div 262144), char_of (0x80 + r div 4096 mod 64),
         char_of (0x80 + r div 64 mod 64), char_of (0x80 + r mod 64)])"

definition string_of_runes :: "rune list \<Rightarrow> string" where
  "string_of_runes rs = concat (map EncodeRune rs)"

text \<open>
  The characters that pass through the mask (\<open>'.'\<close>, \<open>'/'\<close>, \<open>'-'\<close>, \<open>' '\<close>) and the loop of
  \<open>censorString\<close> (lines 338 to 346): \<open>runes[i]\<close> panics for an index outside the slice.
\<close>

definition keeps :: "rune \<Rightarrow> bool" where
  "keeps r \<longleftrightarrow> r = of_char CHR ''.'' \<or> r = of_char CHR ''/'' \<or> r = of_char CHR ''-''
     \<or> r = of_char CHR '' ''"

function censor_loop :: "rune list \<Rightarrow> int \<Rightarrow> int \<Rightarrow> panic + rune list" where
  "censor_loop runes i end' =
     (if i < end' then
        (if i < 0 \<or> int (length runes) \<le> i then Inl (IndexOutOfRange i (length runes))
         else if keeps (runes ! nat i) then censor_loop runes (i + 1) end'
         else censor_loop (runes[nat i := of_char CHR ''x'']) (i + 1) end')
      else Inr runes)"
  by pat_completeness auto
termination
  by (relation "measure (\<lambda>(runes, i, end'). nat (end' - i))") auto

declare censor_loop.simps [simp del]

definition censorString :: "string \<Rightarrow> int \<Rightarrow> int \<Rightarrow> panic + string" where
  "censorString input start end' =
     (case censor_loop (runes_of input) start end' of
        Inl e \<Rightarrow> Inl e
      | Inr runes \<Rightarrow> Inr (string_of_runes runes))"

definition censorDomain :: "string \<Rightarrow> panic + string" where
  "censorDomain input = censorString input (Index input ''.'') (int (length input))"

definition censorIP :: "string \<Rightarrow> panic + string" where
  "censorIP input = censorString input 0 (LastIndex input ''.'')"

definition censorNetBlock :: "string \<Rightarrow> panic + string" where
  "censorNetBlock input = censorString input 0 (Index input ''/'')"

text \<open>Applying a redactor to the output of a redactor; a panic of the first is the result.\<close>

definition twice :: "(string \<Rightarrow> panic + string) \<Rightarrow> string \<Rightarrow> panic + string" where
  "twice f s = (case f s of Inl e \<Rightarrow> Inl e | Inr t \<Rightarrow> f t)"

text \<open>
  What the body of the loop does to one rune, and the runes that \<open>string(runes)\<close> encodes
  as themselves: the Unicode scalar values.
\<close>

definition mask :: "rune \<Rightarrow> rune" where
  "mask r = (if keeps r then r else of_char CHR ''x'')"

definition valid_rune :: "rune \<Rightarrow> bool" where
  "valid_rune r \<longleftrightarrow> 0 \<le> r \<and> r \<le> 0x10FFFF \<and> \<not> (0xD800 \<le> r \<and> r \<le> 0xDFFF)"

section \<open>Facts about the maps and the fan-out statements\<close>

lemma update_distinct_map:
  "distinct (map fst m) \<Longrightarrow> map_of m k = Some d \<Longrightarrow>
   AList.update k v m = map (\<lambda>(k', d'). (k', if k' = k then v else d')) m"
proof (induction m)
  case Nil
  then show ?case by simp
next
  case (Cons p m)
  obtain k0 d0 where p: "p = (k0, d0)" by (cases p)
  show ?case
  proof (cases "k0 = k")
    case True
    with Cons.prems p have "k \<notin> fst ` set m" by auto
    then have "map (\<lambda>(k', d'). (k', if k' = k then v else d')) m = m"
      by (induction m) auto
    with True p show ?thesis by simp
  next
    case False
    with Cons p show ?thesis by simp
  qed
qed

lemma range_append_total:
  "set ks \<subseteq> fst ` set m \<Longrightarrow> \<exists>m'. range_append f ks m = Inr m' \<and> map fst m' = map fst m"
proof (induction ks arbitrary: m)
  case Nil
  then show ?case by simp
next
  case (Cons k ks)
  then have "k \<in> fst ` set m" by simp
  then obtain d where d: "map_of m k = Some d"
    by (metis domD dom_map_of_conv_image_fst)
  have keys: "map fst (AList.update k (f d) m) = map fst m"
    using \<open>k \<in> fst ` set m\<close> by (simp add: update_keys)
  then have "set ks \<subseteq> fst ` set (AList.update k (f d) m)"
    using Cons.prems by (metis list.set_map set_subset_Cons subset_trans)
  from Cons.IH [OF this] d keys show ?case by auto
qed

lemma range_append_map:
  "distinct (map fst m) \<Longrightarrow> distinct ks \<Longrightarrow> set ks \<subseteq> fst ` set m \<Longrightarrow>
   range_append f ks m = Inr (map (\<lambda>(k, d). (k, if k \<in> set ks then f d else d)) m)"
proof (induction ks arbitrary: m)
  case Nil
  then show ?case by (simp add: case_prod_unfold)
next
  case (Cons k ks)
  then have kin: "k \<in> fst ` set m" by simp
  then obtain d where d: "map_of m k = Some d"
    by (metis domD dom_map_of_conv_image_fst)
  let ?m1 = "AList.update k (f d) m"
  have m1: "?m1 = map (\<lambda>(k', d'). (k', if k' = k then f d else d')) m"
    using Cons.prems(1) d by (rule update_distinct_map)
  have keys: "map fst ?m1 = map fst m"
    using kin by (simp add: update_keys)
  have "range_append f ks ?m1 = Inr (map (\<lambda>(k, d). (k, if k \<in> set ks then f d else d)) ?m1)"
    using Cons.prems keys by (intro Cons.IH) (auto simp: image_iff simp flip: set_map)
  also have "map (\<lambda>(k, d). (k, if k \<in> set ks then f d else d)) ?m1
      = map (\<lambda>(k', d'). (k', if k' \<in> set (k # ks) then f d' else d')) m"
  proof -
    have "\<And>k' d'. (k', d') \<in> set m \<Longrightarrow> k' = k \<Longrightarrow> d' = d"
      using Cons.prems(1) d by (simp add: map_of_eq_Some_iff)
    with Cons.prems(2) show ?thesis
      unfolding m1 by (auto simp: case_prod_unfold)
  qed
  finally show ?case using d by simp
qed

lemma range_append_all:
  assumes "distinct (map fst m)"
  shows "range_append f (map fst m) m = Inr (map (\<lambda>(k, d). (k, f d)) m)"
proof -
  have "range_append f (map fst m) m
      = Inr (map (\<lambda>(k, d). (k, if k \<in> set (map fst m) then f d else d)) m)"
    using assms by (intro range_append_map) auto
  also have "map (\<lambda>(k, d). (k, if k \<in> set (map fst m) then f d else d)) m
      = map (\<lambda>(k, d). (k, f d)) m"
    by (rule map_cong) force+
  finally show ?thesis .
qed

lemma attach_netblock_all:
  "distinct (map fst m) \<Longrightarrow>
   attach_netblock x m = Inr (map (\<lambda>(k, d). (k, d\<lparr>netblocks := netblocks d @ [x]\<rparr>)) m)"
  unfolding attach_netblock_def by (rule range_append_all)

lemma attach_fqdn_all:
  "distinct (map fst m) \<Longrightarrow>
   attach_fqdn x m = Inr (map (\<lambda>(k, d). (k, d\<lparr>fqdn_list := fqdn_list d @ [x]\<rparr>)) m)"
  unfolding attach_fqdn_def by (rule range_append_all)

lemma fst_comp_entry: "fst \<circ> (\<lambda>(k, d). (k, f d)) = fst"
  by (auto simp: fun_eq_iff)

lemma keys_map_entries: "map fst (map (\<lambda>(k, d). (k, f d)) m) = map fst m"
  by (simp add: fst_comp_entry)

section \<open>Facts about the tags\<close>

lemma fqdn_tag_not_asn: "HasSuffix l ''(FQDN)'' \<Longrightarrow> \<not> HasSuffix l ''(ASN)''"
proof
  assume a: "HasSuffix l ''(FQDN)''" and b: "HasSuffix l ''(ASN)''"
  from a b have "suffix ''(FQDN)'' ''(ASN)'' \<or> suffix ''(ASN)'' ''(FQDN)''"
    unfolding HasSuffix_def by (meson suffix_same_cases)
  then show False by (simp add: suffix_to_prefix)
qed

lemma ip_tag_not_netblock: "HasSuffix v ''(IPAddress)'' \<Longrightarrow> \<not> HasSuffix v '' (Netblock)''"
proof
  assume a: "HasSuffix v ''(IPAddress)''" and b: "HasSuffix v '' (Netblock)''"
  from a b have "suffix ''(IPAddress)'' '' (Netblock)'' \<or> suffix '' (Netblock)'' ''(IPAddress)''"
    unfolding HasSuffix_def by (meson suffix_same_cases)
  then show False by (simp add: suffix_to_prefix)
qed

section \<open>The branches of the classification\<close>

lemma process_record_segments:
  "process_record st record =
     (if length (Split record '' --> '') < 3 then Inr st
      else classify_relation st (record_left record) (record_value record))"
  by (simp add: process_record_def record_left_def record_value_def Let_def)

lemma classify_netblock:
  assumes "distinct (map fst (asns st))" and "HasSuffix value '' (Netblock)''"
  shows "classify_relation st left value =
     Inr (st\<lparr>asns := map (\<lambda>(k, d).
            (k, d\<lparr>netblocks := netblocks d @ [TrimSuffix value '' (Netblock)'']\<rparr>)) (asns st)\<rparr>)"
  using assms by (simp add: classify_relation_def attach_netblock_all)

lemma classify_fqdn_ip:
  assumes "distinct (map fst (asns st))" and "HasSuffix left ''(FQDN)''"
    and "HasSuffix value ''(IPAddress)''"
  shows "classify_relation st left value =
     Inr (st\<lparr>asns := map (\<lambda>(k, d). (k, d\<lparr>fqdn_list := fqdn_list d @ [left]\<rparr>)) (asns st),
            fqdns := AList.update left value (fqdns st)\<rparr>)"
  using assms
  by (simp add: classify_relation_def attach_fqdn_all fqdn_tag_not_asn ip_tag_not_netblock)

lemma classify_fqdn_total:
  assumes "HasSuffix left ''(FQDN)''"
  shows "\<exists>st'. classify_relation st left value = Inr st'"
proof -
  obtain m1 where m1: "attach_netblock (TrimSuffix value '' (Netblock)'') (asns st) = Inr m1"
    unfolding attach_netblock_def using range_append_total [of "map fst (asns st)" "asns st"]
    by auto
  obtain m2 where m2: "attach_fqdn left (asns st) = Inr m2"
    unfolding attach_fqdn_def using range_append_total [of "map fst (asns st)" "asns st"]
    by auto
  show ?thesis
    using assms m1 m2 by (simp add: classify_relation_def fqdn_tag_not_asn)
qed

lemma classify_fqdn_resolves:
  assumes "HasSuffix left ''(FQDN)''" and "\<not> HasSuffix value '' (Netblock)''"
  shows "\<exists>st'. classify_relation st left value = Inr st' \<and> map_of (fqdns st') left = Some value"
proof -
  obtain m2 where m2: "attach_fqdn left (asns st) = Inr m2"
    unfolding attach_fqdn_def using range_append_total [of "map fst (asns st)" "asns st"]
    by auto
  show ?thesis
    using assms m2 by (simp add: classify_relation_def fqdn_tag_not_asn update_conv')
qed

section \<open>Facts about the file report\<close>

lemma write_fqdn_lines_step:
  "write_fqdn_lines all (e # rest) f =
     (case WriteString f (report_fqdn_line all e) of
        None \<Rightarrow> (f, Some WriteFQDNFailed)
      | Some f' \<Rightarrow> write_fqdn_lines all rest f')"
proof -
  obtain fqdn ip where e: "e = (fqdn, ip)" by (cases e)
  show ?thesis
    by (cases "HasSuffix ip ''(FQDN)''") (simp_all add: e report_fqdn_line_def Let_def)
qed

lemma write_fqdn_lines_chunks:
  "write_fqdn_lines all es (q, out) =
     ((q - length es, out @ take q (map (report_fqdn_line all) es)),
      if q < length es then Some WriteFQDNFailed else None)"
proof (induction es arbitrary: q out)
  case Nil
  then show ?case by simp
next
  case (Cons e es)
  show ?case
  proof (cases q)
    case 0
    then show ?thesis by (simp add: write_fqdn_lines_step)
  next
    case (Suc q')
    with Cons.IH [of q' "out @ [report_fqdn_line all e]"] show ?thesis
      by (simp add: write_fqdn_lines_step)
  qed
qed

lemma write_asn_blocks_step:
  "write_asn_blocks visit fq ((asnID, details) # rest) f =
     (case WriteString f (report_header (length fq) asnID details) of
        None \<Rightarrow> (f, Some WriteASNFailed)
      | Some f1 \<Rightarrow>
          (case write_fqdn_lines fq (visit asnID) f1 of
             (f2, Some e) \<Rightarrow> (f2, Some e)
           | (f2, None) \<Rightarrow> write_asn_blocks visit fq rest f2))"
  by (simp add: report_header_def Let_def)

text \<open>
  With \<open>q\<close> successful writes left, the loop writes the first \<open>q\<close> strings of the
  report, and it ends without an error exactly when that is the whole report.
\<close>

lemma write_asn_blocks_chunks:
  "fst (write_asn_blocks visit fq m (q, out)) =
     (q - length (report_with_count (length fq) visit m fq),
      out @ take q (report_with_count (length fq) visit m fq))
   \<and> (snd (write_asn_blocks visit fq m (q, out)) = None
        \<longleftrightarrow> length (report_with_count (length fq) visit m fq) \<le> q)"
proof (induction m arbitrary: q out)
  case Nil
  then show ?case by (simp add: report_with_count_def)
next
  case (Cons p m)
  obtain asnID details where p: "p = (asnID, details)" by (cases p)
  let ?hdr = "report_header (length fq) asnID details"
  let ?lines = "map (report_fqdn_line fq) (visit asnID)"
  let ?rest = "report_with_count (length fq) visit m fq"
  have rep: "report_with_count (length fq) visit ((asnID, details) # m) fq
      = ?hdr # ?lines @ ?rest"
    by (simp add: report_with_count_def)
  show ?case
  proof (cases q)
    case 0
    then show ?thesis
      unfolding p rep write_asn_blocks_step by simp
  next
    case (Suc q')
    show ?thesis
    proof (cases "q' < length (visit asnID)")
      case True
      with Suc show ?thesis
        unfolding p rep write_asn_blocks_step by (simp add: write_fqdn_lines_chunks)
    next
      case False
      then have le: "\<And>a. (a \<le> q' - length (visit asnID)) = (length (visit asnID) + a \<le> q')"
        by arith
      from False Suc Cons.IH [of "q' - length (visit asnID)" "out @ ?hdr # ?lines"]
      show ?thesis
        unfolding p rep write_asn_blocks_step by (simp add: write_fqdn_lines_chunks le)
    qed
  qed
qed

section \<open>Facts about the structured path\<close>

lemma update_address_skip: "CIDRStr addr = [] \<Longrightarrow> update_address s addr = Inr s"
  by (simp add: update_address_def)

text \<open>Records without a CIDR can be removed from the input without changing the outcome.\<close>

lemma update_addresses_filter:
  "update_addresses s addrs = update_addresses s (filter (\<lambda>a. CIDRStr a \<noteq> []) addrs)"
  by (induction addrs arbitrary: s) (auto simp: update_address_skip split: sum.splits)

section \<open>Facts about the redactor without its separator\<close>

lemma first_index_absent: "c \<notin> set s \<Longrightarrow> first_index [c] s = None"
  by (induction s) auto

lemma last_index_absent: "c \<notin> set s \<Longrightarrow> last_index [c] s = None"
  by (induction s) auto

lemma censor_loop_empty_window: "end' \<le> i \<Longrightarrow> censor_loop runes i end' = Inr runes"
  by (simp add: censor_loop.simps)

lemma censor_loop_negative_start:
  "i < 0 \<Longrightarrow> i < end' \<Longrightarrow> censor_loop runes i end' = Inl (IndexOutOfRange i (length runes))"
  by (simp add: censor_loop.simps)

text \<open>
  Without a \<open>'.'\<close> the window of \<open>censorDomain\<close> starts at \<open>-1\<close> and the first access
  \<open>runes[-1]\<close> panics, whatever the input. The windows of \<open>censorIP\<close> and
  \<open>censorNetBlock\<close> end at \<open>-1\<close> instead: their loop does not run and the input comes
  back, re-encoded.
\<close>

lemma censorDomain_without_dot:
  "CHR ''.'' \<notin> set input \<Longrightarrow>
   censorDomain input = Inl (IndexOutOfRange (- 1) (length (runes_of input)))"
  by (simp add: censorDomain_def censorString_def Index_def first_index_absent
      censor_loop_negative_start)

lemma censorIP_without_dot:
  "CHR ''.'' \<notin> set input \<Longrightarrow> censorIP input = Inr (string_of_runes (runes_of input))"
  by (simp add: censorIP_def censorString_def LastIndex_def last_index_absent
      censor_loop_empty_window)

lemma censorNetBlock_without_slash:
  "CHR ''/'' \<notin> set input \<Longrightarrow> censorNetBlock input = Inr (string_of_runes (runes_of input))"
  by (simp add: censorNetBlock_def censorString_def Index_def first_index_absent
      censor_loop_empty_window)

section \<open>The invariants of the two models\<close>

text \<open>
  Every state the parser reaches from the empty maps has distinct keys, so the
  hypothesis \<open>distinct_keys\<close> of the statements below excludes no state of a run.
\<close>

lemma classify_relation_distinct_keys:
  assumes "distinct_keys st" and "classify_relation st left value = Inr st'"
  shows "distinct_keys st'"
proof -
  have d: "distinct (map fst (asns st))" and f: "distinct (map fst (fqdns st))"
    using assms(1) by (simp_all add: distinct_keys_def)
  show ?thesis
    using assms(2) d f
    by (auto simp: classify_relation_def distinct_keys_def attach_netblock_all attach_fqdn_all
        fst_comp_entry distinct_update Let_def
        split: if_splits sum.splits)
qed

lemma process_record_distinct_keys:
  "distinct_keys st \<Longrightarrow> process_record st record = Inr st' \<Longrightarrow> distinct_keys st'"
  by (auto simp: process_record_segments classify_relation_distinct_keys split: if_splits)

lemma parse_records_distinct_keys:
  "distinct_keys st \<Longrightarrow> parse_records st records = Inr st' \<Longrightarrow> distinct_keys st'"
proof (induction records arbitrary: st)
  case Nil
  then show ?case by simp
next
  case (Cons r rs)
  then show ?case
    by (auto split: sum.splits dest: process_record_distinct_keys)
qed

lemma summarize_distinct_keys: "summarize records = Inr st \<Longrightarrow> distinct_keys st"
  unfolding summarize_def
  by (rule parse_records_distinct_keys [of empty_summary])
     (simp_all add: distinct_keys_def empty_summary_def)

lemma update_new_key: "map_of m k = None \<Longrightarrow> AList.update k v m = m @ [(k, v)]"
  by (induction m) (auto split: if_splits)

lemma update_address_valid:
  assumes "valid_store s" and "update_address s addr = Inr s'"
  shows "valid_store s'"
proof (cases "CIDRStr addr = []")
  case True
  with assms show ?thesis by (simp add: update_address_def)
next
  case False
  show ?thesis
  proof (cases "map_of (table s) (ASN addr)")
    case None
    with False assms(2) have "table s' = table s @ [(ASN addr, Some (length (heap s)))]"
      and "length (heap s') = Suc (length (heap s))"
      by (auto simp: update_address_def update_new_key Let_def)
    moreover from None have "ASN addr \<notin> fst ` set (table s)"
      by (simp add: map_of_eq_None_iff)
    ultimately show ?thesis
      using assms(1) by (auto simp: valid_store_def list_all_iff split: option.splits)
  next
    case (Some p)
    with False assms(2) have "table s' = table s" and "length (heap s') = length (heap s)"
      by (auto simp: update_address_def Let_def split: option.splits if_splits)
    then show ?thesis
      using assms(1) by (auto simp: valid_store_def list_all_iff split: option.splits)
  qed
qed

lemma update_address_keeps_name:
  assumes "map_of (table s) (ASN addr) = Some (Some p)" and "update_address s addr = Inr s'"
  shows "map_of (table s') (ASN addr) = Some (Some p)
       \<and> SummaryName (heap s' ! p) = SummaryName (heap s ! p)"
  using assms
  by (cases "CIDRStr addr = []")
     (auto simp: update_address_def Let_def split: option.splits if_splits)

section \<open>The loop of censorString\<close>

lemma mask_mask: "mask (mask r) = mask r"
  by (simp add: mask_def keeps_def)

lemma censor_loop_window:
  "i \<le> e \<Longrightarrow> e \<le> length rs \<Longrightarrow>
   censor_loop rs (int i) (int e) =
     Inr (take i rs @ map mask (take (e - i) (drop i rs)) @ drop e rs)"
proof (induction "e - i" arbitrary: i rs)
  case 0
  then show ?case by (simp add: censor_loop.simps)
next
  case (Suc k)
  then have i: "i < e" "i < length rs" by simp_all
  let ?rs1 = "rs[i := mask (rs ! i)]"
  have step: "censor_loop rs (int i) (int e) = censor_loop ?rs1 (int (Suc i)) (int e)"
    using i by (subst censor_loop.simps) (simp add: mask_def add.commute)
  have "censor_loop ?rs1 (int (Suc i)) (int e) =
      Inr (take (Suc i) ?rs1 @ map mask (take (e - Suc i) (drop (Suc i) ?rs1)) @ drop e ?rs1)"
    using Suc.hyps(2) Suc.prems i by (intro Suc.hyps(1)) simp_all
  also have "take (Suc i) ?rs1 = take i rs @ [mask (rs ! i)]"
    using i by (simp add: take_Suc_conv_app_nth)
  also have "drop (Suc i) ?rs1 = drop (Suc i) rs" by simp
  also have "drop e ?rs1 = drop e rs" using i by simp
  also have "(take i rs @ [mask (rs ! i)]) @ map mask (take (e - Suc i) (drop (Suc i) rs)) @ drop e rs
      = take i rs @ map mask (take (e - i) (drop i rs)) @ drop e rs"
  proof -
    have "drop i rs = rs ! i # drop (Suc i) rs"
      using i by (simp add: Cons_nth_drop_Suc)
    moreover have "e - i = Suc (e - Suc i)" using i by simp
    ultimately show ?thesis by simp
  qed
  finally show ?case using step by simp
qed

lemma censor_loop_overrun:
  "i \<le> length rs \<Longrightarrow> int (length rs) < e \<Longrightarrow>
   censor_loop rs (int i) e = Inl (IndexOutOfRange (int (length rs)) (length rs))"
proof (induction "length rs - i" arbitrary: i rs)
  case 0
  then show ?case by (subst censor_loop.simps) simp
next
  case (Suc k)
  then have i: "i < length rs" by simp
  let ?rs1 = "rs[i := mask (rs ! i)]"
  have step: "censor_loop rs (int i) e = censor_loop ?rs1 (int (Suc i)) e"
    using i Suc.prems by (subst censor_loop.simps) (simp add: mask_def add.commute)
  have "censor_loop ?rs1 (int (Suc i)) e
      = Inl (IndexOutOfRange (int (length ?rs1)) (length ?rs1))"
    using Suc.hyps(2) Suc.prems i by (intro Suc.hyps(1)) simp_all
  with step show ?case by simp
qed

lemma censor_loop_from_start:
  "censor_loop rs 0 e = Inr rs' \<Longrightarrow>
   (e \<le> 0 \<and> rs' = rs) \<or>
   (0 < e \<and> nat e \<le> length rs \<and> rs' = map mask (take (nat e) rs) @ drop (nat e) rs)"
proof -
  assume a: "censor_loop rs 0 e = Inr rs'"
  show ?thesis
  proof (cases "e \<le> 0")
    case True
    with a show ?thesis by (simp add: censor_loop.simps)
  next
    case False
    show ?thesis
    proof (cases "int (length rs) < e")
      case True
      from censor_loop_overrun [of 0 rs e] True a show ?thesis by simp
    next
      case False
      with \<open>\<not> e \<le> 0\<close> have le: "nat e \<le> length rs" and e: "int (nat e) = e" by simp_all
      from censor_loop_window [of 0 "nat e" rs] le e a
      show ?thesis using \<open>\<not> e \<le> 0\<close> by simp
    qed
  qed
qed

lemma first_index_found:
  "first_index [a] s = Some k \<Longrightarrow>
   \<exists>pre post. s = pre @ a # post \<and> a \<notin> set pre \<and> k = length pre"
proof (induction s arbitrary: k)
  case Nil
  then show ?case by simp
next
  case (Cons c s)
  show ?case
  proof (cases "c = a")
    case True
    with Cons.prems have "k = 0" by simp
    with True show ?thesis by (intro exI [of _ "[]"] exI [of _ s]) simp
  next
    case False
    with Cons.prems obtain k' where k': "first_index [a] s = Some k'" "k = Suc k'"
      by auto
    from Cons.IH [OF k'(1)] obtain pre post
      where "s = pre @ a # post" "a \<notin> set pre" "k' = length pre" by blast
    with False k'(2) show ?thesis
      by (intro exI [of _ "c # pre"] exI [of _ post]) simp
  qed
qed

lemma first_index_at: "a \<notin> set pre \<Longrightarrow> first_index [a] (pre @ a # post) = Some (length pre)"
  by (induction pre) auto

lemma last_index_at: "a \<notin> set post \<Longrightarrow> last_index [a] (pre @ a # post) = Some (length pre)"
  by (induction pre) (auto simp: last_index_absent)

lemma last_index_found:
  "last_index [a] s = Some k \<Longrightarrow>
   \<exists>pre post. s = pre @ a # post \<and> a \<notin> set post \<and> k = length pre"
proof (induction s arbitrary: k)
  case Nil
  then show ?case by simp
next
  case (Cons c s)
  show ?case
  proof (cases "last_index [a] s")
    case None
    with Cons.prems have "c = a" "k = 0" by (auto split: if_splits)
    moreover from None have "a \<notin> set s"
      by (induction s) (auto split: option.splits if_splits)
    ultimately show ?thesis by (intro exI [of _ "[]"] exI [of _ s]) simp
  next
    case (Some k')
    with Cons.prems have k: "k = Suc k'" by simp
    from Cons.IH [OF Some] obtain pre post
      where "s = pre @ a # post" "a \<notin> set post" "k' = length pre" by blast
    with k show ?thesis
      by (intro exI [of _ "c # pre"] exI [of _ post]) simp
  qed
qed

section \<open>Decoding and encoding UTF-8\<close>

lemma byte_range: "0 \<le> (of_char c :: int)" "(of_char c :: int) < 256"
proof -
  have "(of_char c :: int) mod 256 = of_char c" by simp
  then show "0 \<le> (of_char c :: int)" "(of_char c :: int) < 256"
    by (metis pos_mod_sign zero_less_numeral, metis pos_mod_bound zero_less_numeral)
qed

lemma accept_range_cont: "0x80 \<le> fst (accept_range b) \<and> snd (accept_range b) \<le> 0xBF"
  by (simp add: accept_range_def)

lemma DecodeRune_ascii: "(of_char c :: int) < 0x80 \<Longrightarrow> DecodeRune (c # cs) = (of_char c, 1)"
  by (simp add: DecodeRune_def)

lemma DecodeRune_bad_lead:
  "0x80 \<le> (of_char c :: int) \<Longrightarrow> (of_char c :: int) < 0xC2 \<or> 0xF4 < (of_char c :: int) \<Longrightarrow>
   DecodeRune (c # cs) = (RuneError, 1)"
  by (auto simp: DecodeRune_def)

lemma DecodeRune_two:
  assumes "0xC2 \<le> (of_char c :: int)" and "(of_char c :: int) < 0xE0"
  shows "DecodeRune [c] = (RuneError, 1)"
    and "DecodeRune (c # c1 # cs) =
      (if (of_char c1 :: int) < 0x80 \<or> 0xBF < (of_char c1 :: int) then (RuneError, 1)
       else (of_char c mod 32 * 64 + of_char c1 mod 64, 2))"
  using assms by (simp_all add: DecodeRune_def Let_def case_prod_unfold accept_range_def)

lemma DecodeRune_three:
  assumes "0xE0 \<le> (of_char c :: int)" and "(of_char c :: int) < 0xF0"
  shows "DecodeRune [c] = (RuneError, 1)"
    and "DecodeRune [c, c1] = (RuneError, 1)"
    and "DecodeRune (c # c1 # c2 # cs) =
      (if (of_char c1 :: int) < fst (accept_range (of_char c))
          \<or> snd (accept_range (of_char c)) < (of_char c1 :: int)
          \<or> (of_char c2 :: int) < 0x80 \<or> 0xBF < (of_char c2 :: int) then (RuneError, 1)
       else (of_char c mod 16 * 4096 + of_char c1 mod 64 * 64 + of_char c2 mod 64, 3))"
  using assms by (simp_all add: DecodeRune_def Let_def case_prod_unfold)

lemma DecodeRune_four:
  assumes "0xF0 \<le> (of_char c :: int)" and "(of_char c :: int) \<le> 0xF4"
  shows "DecodeRune [c] = (RuneError, 1)"
    and "DecodeRune [c, c1] = (RuneError, 1)"
    and "DecodeRune [c, c1, c2] = (RuneError, 1)"
    and "DecodeRune (c # c1 # c2 # c3 # cs) =
      (if (of_char c1 :: int) < fst (accept_range (of_char c))
          \<or> snd (accept_range (of_char c)) < (of_char c1 :: int)
          \<or> (of_char c2 :: int) < 0x80 \<or> 0xBF < (of_char c2 :: int)
          \<or> (of_char c3 :: int) < 0x80 \<or> 0xBF < (of_char c3 :: int) then (RuneError, 1)
       else (of_char c mod 8 * 262144 + of_char c1 mod 64 * 4096 + of_char c2 mod 64 * 64
             + of_char c3 mod 64, 4))"
  using assms by (simp_all add: DecodeRune_def Let_def case_prod_unfold)


lemma DecodeRune_cases:
  obtains (ascii) "(of_char c :: int) < 0x80" "DecodeRune (c # cs) = (of_char c, 1)"
  | (error) "0x80 \<le> (of_char c :: int)" "DecodeRune (c # cs) = (RuneError, 1)"
  | (two) c1 cs' where "cs = c1 # cs'"
      "0xC2 \<le> (of_char c :: int)" "(of_char c :: int) < 0xE0"
      "0x80 \<le> (of_char c1 :: int)" "(of_char c1 :: int) \<le> 0xBF"
      "DecodeRune (c # cs) = (of_char c mod 32 * 64 + of_char c1 mod 64, 2)"
  | (three) c1 c2 cs' where "cs = c1 # c2 # cs'"
      "0xE0 \<le> (of_char c :: int)" "(of_char c :: int) < 0xF0"
      "fst (accept_range (of_char c)) \<le> (of_char c1 :: int)"
      "(of_char c1 :: int) \<le> snd (accept_range (of_char c))"
      "0x80 \<le> (of_char c2 :: int)" "(of_char c2 :: int) \<le> 0xBF"
      "DecodeRune (c # cs) =
         (of_char c mod 16 * 4096 + of_char c1 mod 64 * 64 + of_char c2 mod 64, 3)"
  | (four) c1 c2 c3 cs' where "cs = c1 # c2 # c3 # cs'"
      "0xF0 \<le> (of_char c :: int)" "(of_char c :: int) \<le> 0xF4"
      "fst (accept_range (of_char c)) \<le> (of_char c1 :: int)"
      "(of_char c1 :: int) \<le> snd (accept_range (of_char c))"
      "0x80 \<le> (of_char c2 :: int)" "(of_char c2 :: int) \<le> 0xBF"
      "0x80 \<le> (of_char c3 :: int)" "(of_char c3 :: int) \<le> 0xBF"
      "DecodeRune (c # cs) =
         (of_char c mod 8 * 262144 + of_char c1 mod 64 * 4096 + of_char c2 mod 64 * 64
          + of_char c3 mod 64, 4)"
proof -
  let ?b = "of_char c :: int"
  consider "?b < 0x80" | "0x80 \<le> ?b" "?b < 0xC2 \<or> 0xF4 < ?b"
    | "0xC2 \<le> ?b" "?b < 0xE0" | "0xE0 \<le> ?b" "?b < 0xF0" | "0xF0 \<le> ?b" "?b \<le> 0xF4"
    by linarith
  then show thesis
  proof cases
    case 1
    then show ?thesis by (intro ascii) (simp_all add: DecodeRune_ascii)
  next
    case 2
    then show ?thesis by (intro error) (simp_all add: DecodeRune_bad_lead)
  next
    case 3
    then have hi: "0x80 \<le> ?b" by simp
    show ?thesis
    proof (cases cs)
      case Nil
      with 3 hi show ?thesis by (intro error) (simp_all add: DecodeRune_two)
    next
      case (Cons c1 cs')
      show ?thesis
      proof (cases "(of_char c1 :: int) < 0x80 \<or> 0xBF < (of_char c1 :: int)")
        case True
        with 3 hi Cons show ?thesis by (intro error) (simp_all add: DecodeRune_two)
      next
        case False
        with 3 Cons show ?thesis by (intro two [of c1 cs']) (simp_all add: DecodeRune_two)
      qed
    qed
  next
    case 4
    then have hi: "0x80 \<le> ?b" by simp
    consider "cs = []" | c1 where "cs = [c1]" | c1 c2 cs' where "cs = c1 # c2 # cs'"
      by (metis list.exhaust)
    then show ?thesis
    proof cases
      case 1
      with 4 hi show ?thesis by (intro error) (simp_all add: DecodeRune_three)
    next
      case 2
      with 4 hi show ?thesis by (intro error) (simp_all add: DecodeRune_three)
    next
      case (3 c1 c2 cs')
      show ?thesis
      proof (cases "(of_char c1 :: int) < fst (accept_range ?b)
          \<or> snd (accept_range ?b) < (of_char c1 :: int)
          \<or> (of_char c2 :: int) < 0x80 \<or> 0xBF < (of_char c2 :: int)")
        case True
        with 4 hi 3 show ?thesis by (intro error) (simp_all add: DecodeRune_three)
      next
        case False
        with 4 3 show ?thesis
          by (intro three [of c1 c2 cs']) (simp_all add: DecodeRune_three)
      qed
    qed
  next
    case 5
    then have hi: "0x80 \<le> ?b" by simp
    consider "cs = []" | c1 where "cs = [c1]" | c1 c2 where "cs = [c1, c2]"
      | c1 c2 c3 cs' where "cs = c1 # c2 # c3 # cs'"
      by (metis list.exhaust)
    then show ?thesis
    proof cases
      case 1
      with 5 hi show ?thesis by (intro error) (simp_all add: DecodeRune_four)
    next
      case 2
      with 5 hi show ?thesis by (intro error) (simp_all add: DecodeRune_four)
    next
      case 3
      with 5 hi show ?thesis by (intro error) (simp_all add: DecodeRune_four)
    next
      case (4 c1 c2 c3 cs')
      show ?thesis
      proof (cases "(of_char c1 :: int) < fst (accept_range ?b)
          \<or> snd (accept_range ?b) < (of_char c1 :: int)
          \<or> (of_char c2 :: int) < 0x80 \<or> 0xBF < (of_char c2 :: int)
          \<or> (of_char c3 :: int) < 0x80 \<or> 0xBF < (of_char c3 :: int)")
        case True
        with 5 hi 4 show ?thesis by (intro error) (simp_all add: DecodeRune_four)
      next
        case False
        with 5 4 show ?thesis
          by (intro four [of c1 c2 c3 cs']) (simp_all add: DecodeRune_four)
      qed
    qed
  qed
qed



lemma mod64: "0x80 \<le> (b :: int) \<Longrightarrow> b \<le> 0xBF \<Longrightarrow> b mod 64 = b - 0x80"
  by presburger

lemma mod32: "0xC0 \<le> (b :: int) \<Longrightarrow> b < 0xE0 \<Longrightarrow> b mod 32 = b - 0xC0"
  by presburger

lemma mod16: "0xE0 \<le> (b :: int) \<Longrightarrow> b < 0xF0 \<Longrightarrow> b mod 16 = b - 0xE0"
  by presburger

lemma mod8: "0xF0 \<le> (b :: int) \<Longrightarrow> b < 0xF8 \<Longrightarrow> b mod 8 = b - 0xF0"
  by presburger

lemma DecodeRune_width:
  assumes "DecodeRune (c # cs) = (r, n)"
  shows "1 \<le> n \<and> n \<le> Suc (length cs)"
  using assms by (cases rule: DecodeRune_cases [where c = c and cs = cs]) auto

lemma DecodeRune_valid:
  assumes "DecodeRune (c # cs) = (r, n)"
  shows "valid_rune r"
proof (cases rule: DecodeRune_cases [where c = c and cs = cs])
  case ascii
  with assms byte_range [of c] show ?thesis by (simp add: valid_rune_def)
next
  case error
  with assms show ?thesis by (simp add: valid_rune_def RuneError_def)
next
  case (two c1 cs')
  with assms have "r = (of_char c - 0xC0) * 64 + (of_char c1 - 0x80)"
    by (simp add: mod32 mod64)
  with two show ?thesis by (simp add: valid_rune_def)
next
  case (three c1 c2 cs')
  from three(4,5) accept_range_cont [of "of_char c"]
  have c1: "0x80 \<le> (of_char c1 :: int)" "(of_char c1 :: int) \<le> 0xBF" by linarith+
  with three assms have r: "r = (of_char c - 0xE0) * 4096 + (of_char c1 - 0x80) * 64 + (of_char c2 - 0x80)"
    by (simp add: mod16 mod64)
  consider "(of_char c :: int) < 0xED" | "(of_char c :: int) = 0xED" | "0xED < (of_char c :: int)"
    by linarith
  then show ?thesis
  proof cases
    case 1
    with r three c1 show ?thesis by (simp add: valid_rune_def)
  next
    case 2
    with three(5) have "(of_char c1 :: int) \<le> 0x9F" by (simp add: accept_range_def)
    with 2 r three c1 show ?thesis by (simp add: valid_rune_def)
  next
    case 3
    with r three c1 show ?thesis by (simp add: valid_rune_def)
  qed
next
  case (four c1 c2 c3 cs')
  from four(4,5) accept_range_cont [of "of_char c"]
  have c1: "0x80 \<le> (of_char c1 :: int)" "(of_char c1 :: int) \<le> 0xBF" by linarith+
  with four assms have r: "r = (of_char c - 0xF0) * 262144 + (of_char c1 - 0x80) * 4096
      + (of_char c2 - 0x80) * 64 + (of_char c3 - 0x80)"
    by (simp add: mod8 mod64)
  consider "(of_char c :: int) = 0xF0" | "0xF0 < (of_char c :: int)" "(of_char c :: int) < 0xF4"
    | "(of_char c :: int) = 0xF4"
    using four(2,3) by linarith
  then show ?thesis
  proof cases
    case 1
    with four(4) have "0x90 \<le> (of_char c1 :: int)" by (simp add: accept_range_def)
    with 1 r four c1 show ?thesis by (simp add: valid_rune_def)
  next
    case 2
    with r four c1 show ?thesis by (simp add: valid_rune_def)
  next
    case 3
    with four(5) have "(of_char c1 :: int) \<le> 0x8F" by (simp add: accept_range_def)
    with 3 r four c1 show ?thesis by (simp add: valid_rune_def)
  qed
qed

lemma DecodeRune_not_ascii:
  assumes "DecodeRune (c # cs) = (r, n)" and "\<not> (of_char c :: int) < 0x80"
  shows "0x80 \<le> r \<and> (\<forall>x \<in> set (take (n - 1) cs). 0x80 \<le> (of_char x :: int))"
proof (cases rule: DecodeRune_cases [where c = c and cs = cs])
  case ascii
  with assms show ?thesis by simp
next
  case error
  with assms show ?thesis by (simp add: RuneError_def)
next
  case (two c1 cs')
  with assms have "r = (of_char c - 0xC0) * 64 + (of_char c1 - 0x80)" "n = 2"
    by (simp_all add: mod32 mod64)
  with two show ?thesis by simp
next
  case (three c1 c2 cs')
  from three(4,5) accept_range_cont [of "of_char c"]
  have c1: "0x80 \<le> (of_char c1 :: int)" "(of_char c1 :: int) \<le> 0xBF" by linarith+
  with three assms have r: "r = (of_char c - 0xE0) * 4096 + (of_char c1 - 0x80) * 64 + (of_char c2 - 0x80)"
    and n: "n = 3"
    by (simp_all add: mod16 mod64)
  have "0x80 \<le> r"
  proof (cases "(of_char c :: int) = 0xE0")
    case True
    with three(4) have "0xA0 \<le> (of_char c1 :: int)" by (simp add: accept_range_def)
    with r three True show ?thesis by simp
  next
    case False
    with r three c1 show ?thesis by simp
  qed
  with n three c1 show ?thesis by (simp add: numeral_3_eq_3)
next
  case (four c1 c2 c3 cs')
  from four(4,5) accept_range_cont [of "of_char c"]
  have c1: "0x80 \<le> (of_char c1 :: int)" "(of_char c1 :: int) \<le> 0xBF" by linarith+
  with four assms have r: "r = (of_char c - 0xF0) * 262144 + (of_char c1 - 0x80) * 4096
      + (of_char c2 - 0x80) * 64 + (of_char c3 - 0x80)"
    and n: "n = 4"
    by (simp_all add: mod8 mod64)
  have "0x80 \<le> r"
  proof (cases "(of_char c :: int) = 0xF0")
    case True
    with four(4) have "0x90 \<le> (of_char c1 :: int)" by (simp add: accept_range_def)
    with r four True show ?thesis by simp
  next
    case False
    with r four c1 show ?thesis by simp
  qed
  with n four c1 show ?thesis by (simp add: numeral_eq_Suc)
qed

lemma DecodeRune_append_ascii:
  assumes a: "(of_char a :: int) < 0x80"
  shows "DecodeRune (c # cs @ a # post) = DecodeRune (c # cs)"
proof -
  let ?b = "of_char c :: int"
  have lo: "(of_char a :: int) < fst (accept_range ?b)"
    using a accept_range_cont [of ?b] by linarith
  consider "?b < 0x80" | "0x80 \<le> ?b" "?b < 0xC2 \<or> 0xF4 < ?b"
    | "0xC2 \<le> ?b" "?b < 0xE0" | "0xE0 \<le> ?b" "?b < 0xF0" | "0xF0 \<le> ?b" "?b \<le> 0xF4"
    by linarith
  then show ?thesis
  proof cases
    case 1
    then show ?thesis by (simp add: DecodeRune_ascii)
  next
    case 2
    then show ?thesis by (simp add: DecodeRune_bad_lead)
  next
    case 3
    show ?thesis
    proof (cases cs)
      case Nil
      with 3 a show ?thesis by (simp add: DecodeRune_two)
    next
      case (Cons c1 cs')
      with 3 show ?thesis by (simp add: DecodeRune_two)
    qed
  next
    case 4
    consider "cs = []" "post = []" | p1 post' where "cs = []" "post = p1 # post'"
      | c1 where "cs = [c1]" | c1 c2 cs' where "cs = c1 # c2 # cs'"
      by (metis list.exhaust)
    then show ?thesis
    proof cases
      case 1
      with 4 show ?thesis by (simp add: DecodeRune_three)
    next
      case 2
      with 4 lo show ?thesis by (simp add: DecodeRune_three)
    next
      case 3
      with 4 a show ?thesis by (simp add: DecodeRune_three)
    next
      case 4
      with \<open>0xE0 \<le> ?b\<close> \<open>?b < 0xF0\<close> show ?thesis by (simp add: DecodeRune_three)
    qed
  next
    case 5
    consider "cs = []" "post = []" | p1 where "cs = []" "post = [p1]"
      | p1 p2 post' where "cs = []" "post = p1 # p2 # post'"
      | c1 where "cs = [c1]" "post = []" | c1 p1 post' where "cs = [c1]" "post = p1 # post'"
      | c1 c2 where "cs = [c1, c2]" | c1 c2 c3 cs' where "cs = c1 # c2 # c3 # cs'"
      by (metis list.exhaust)
    then show ?thesis
    proof cases
      case 1
      with 5 show ?thesis by (simp add: DecodeRune_four)
    next
      case 2
      with 5 show ?thesis by (simp add: DecodeRune_four)
    next
      case 3
      with 5 lo show ?thesis by (simp add: DecodeRune_four)
    next
      case 4
      with 5 show ?thesis by (simp add: DecodeRune_four)
    next
      case 5
      with \<open>0xF0 \<le> ?b\<close> \<open>?b \<le> 0xF4\<close> a show ?thesis by (simp add: DecodeRune_four)
    next
      case 6
      with 5 a show ?thesis by (simp add: DecodeRune_four)
    next
      case 7
      with 5 show ?thesis by (simp add: DecodeRune_four)
    qed
  qed
qed

lemma runes_of_append_ascii:
  assumes a: "(of_char a :: int) < 0x80"
  shows "runes_of (pre @ a # post) = runes_of pre @ of_char a # runes_of post"
proof (induction pre rule: runes_of.induct)
  case 1
  from a show ?case by (simp add: DecodeRune_ascii)
next
  case (2 c cs)
  obtain r n where d: "DecodeRune (c # cs) = (r, n)" by (cases "DecodeRune (c # cs)")
  from DecodeRune_width [OF d] have n: "n - 1 \<le> length cs" by arith
  from d a have d': "DecodeRune (c # cs @ a # post) = (r, n)"
    by (simp add: DecodeRune_append_ascii)
  from 2 [OF d [symmetric]] have "runes_of (drop (n - 1) cs @ a # post)
      = runes_of (drop (n - 1) cs) @ of_char a # runes_of post" .
  with d d' n show ?case by simp
qed

lemma runes_of_length: "length (runes_of s) \<le> length s"
proof (induction s rule: runes_of.induct)
  case 1
  show ?case by simp
next
  case (2 c cs)
  obtain r n where d: "DecodeRune (c # cs) = (r, n)" by (cases "DecodeRune (c # cs)")
  from 2 [OF d [symmetric]] d show ?case by simp
qed

lemma runes_of_valid: "r \<in> set (runes_of s) \<Longrightarrow> valid_rune r"
proof (induction s rule: runes_of.induct)
  case 1
  then show ?case by simp
next
  case (2 c cs)
  obtain r0 n where d: "DecodeRune (c # cs) = (r0, n)" by (cases "DecodeRune (c # cs)")
  from 2 d DecodeRune_valid [OF d] show ?case by auto
qed

lemma runes_of_no_ascii:
  assumes a: "(of_char a :: int) < 0x80"
  shows "a \<notin> set s \<Longrightarrow> of_char a \<notin> set (runes_of s)"
proof (induction s rule: runes_of.induct)
  case 1
  show ?case by simp
next
  case (2 c cs)
  obtain r n where d: "DecodeRune (c # cs) = (r, n)" by (cases "DecodeRune (c # cs)")
  from 2(2) have "a \<notin> set (drop (n - 1) cs)" by (auto dest: in_set_dropD)
  with 2(1) [OF d [symmetric]] have rest: "of_char a \<notin> set (runes_of (drop (n - 1) cs))" .
  have "r \<noteq> of_char a"
  proof (cases "(of_char c :: int) < 0x80")
    case True
    with d have "r = of_char c" by (simp add: DecodeRune_ascii)
    with 2(2) show ?thesis by auto
  next
    case False
    from DecodeRune_not_ascii [OF d False] a show ?thesis by simp
  qed
  with rest d show ?case by simp
qed

lemma of_char_char_of_byte: "0 \<le> x \<Longrightarrow> x < 256 \<Longrightarrow> (of_char (char_of (x :: int)) :: int) = x"
  by simp

lemma DecodeRune_EncodeRune:
  assumes "valid_rune r"
  shows "DecodeRune (EncodeRune r @ rest) = (r, length (EncodeRune r))"
proof -
  from assms have r0: "0 \<le> r" and rmax: "r \<le> 0x10FFFF"
    and sur: "\<not> (0xD800 \<le> r \<and> r \<le> 0xDFFF)"
    by (simp_all add: valid_rune_def)
  define q1 m1 where "q1 = r div 64" and "m1 = r mod 64"
  define q2 m2 where "q2 = q1 div 64" and "m2 = q1 mod 64"
  define q3 m3 where "q3 = q2 div 64" and "m3 = q2 mod 64"
  have r1: "r = q1 * 64 + m1" and m1: "0 \<le> m1" "m1 < 64"
    by (simp_all add: q1_def m1_def)
  have r2: "q1 = q2 * 64 + m2" and m2: "0 \<le> m2" "m2 < 64"
    by (simp_all add: q2_def m2_def)
  have r3: "q2 = q3 * 64 + m3" and m3: "0 \<le> m3" "m3 < 64"
    by (simp_all add: q3_def m3_def)
  have d2: "r div 4096 = q2"
    using zdiv_zmult2_eq [of 64 r 64] by (simp add: q1_def q2_def)
  have d3: "r div 262144 = q3"
    using zdiv_zmult2_eq [of 64 r 4096] d2 by (simp add: q3_def)
  have dm2: "r div 64 mod 64 = m2" by (simp add: q1_def m2_def)
  have dm3: "r div 4096 mod 64 = m3" by (simp add: d2 m3_def)
  note names = q1_def [symmetric] m1_def [symmetric] m2_def [symmetric] m3_def [symmetric] d2 d3
  consider "r < 0x80" | "0x80 \<le> r" "r < 0x800" | "0x800 \<le> r" "r < 0x10000"
    | "0x10000 \<le> r"
    by linarith
  then show ?thesis
  proof cases
    case 1
    with r0 show ?thesis
      by (simp add: EncodeRune_def DecodeRune_ascii of_char_char_of_byte)
  next
    case 2
    from 2 r0 have enc: "EncodeRune r = [char_of (0xC0 + q1), char_of (0x80 + m1)]"
      by (simp add: EncodeRune_def names)
    from 2 r1 m1 have q1: "2 \<le> q1" "q1 < 32" by linarith+
    have oc0: "(of_char (char_of (0xC0 + q1)) :: int) = 0xC0 + q1"
      using q1 by (intro of_char_char_of_byte) linarith+
    have oc1: "(of_char (char_of (0x80 + m1)) :: int) = 0x80 + m1"
      using m1 by (intro of_char_char_of_byte) linarith+
    have "DecodeRune (char_of (0xC0 + q1) # char_of (0x80 + m1) # rest)
        = ((0xC0 + q1) mod 32 * 64 + (0x80 + m1) mod 64, 2)"
      using q1 m1 by (subst DecodeRune_two(2)) (simp_all only: oc0 oc1, simp_all)
    also have "(0xC0 + q1) mod 32 = q1" using q1 by (subst mod32) simp_all
    also have "(0x80 + m1) mod 64 = m1" using m1 by (subst mod64) simp_all
    finally show ?thesis using enc r1 by simp
  next
    case 3
    from 3 r0 sur have enc: "EncodeRune r
        = [char_of (0xE0 + q2), char_of (0x80 + m2), char_of (0x80 + m1)]"
      by (auto simp: EncodeRune_def names)
    from 3 r1 r2 m1 m2 have q2: "0 \<le> q2" "q2 < 16" by linarith+
    have oc0: "(of_char (char_of (0xE0 + q2)) :: int) = 0xE0 + q2"
      using q2 by (intro of_char_char_of_byte) linarith+
    have oc1: "(of_char (char_of (0x80 + m2)) :: int) = 0x80 + m2"
      using m2 by (intro of_char_char_of_byte) linarith+
    have oc2: "(of_char (char_of (0x80 + m1)) :: int) = 0x80 + m1"
      using m1 by (intro of_char_char_of_byte) linarith+
    have lo: "fst (accept_range (0xE0 + q2)) \<le> 0x80 + m2"
    proof (cases "q2 = 0")
      case True
      with 3 r1 r2 m1 have "32 \<le> m2" by linarith
      with True show ?thesis by (simp add: accept_range_def)
    next
      case False
      with m2 q2 show ?thesis by (simp add: accept_range_def)
    qed
    have hi: "0x80 + m2 \<le> snd (accept_range (0xE0 + q2))"
    proof (cases "q2 = 13")
      case True
      with 3 sur r1 r2 m1 m2 have "m2 < 32" by linarith
      with True show ?thesis by (simp add: accept_range_def)
    next
      case False
      with m2 q2 show ?thesis by (simp add: accept_range_def)
    qed
    have "DecodeRune (char_of (0xE0 + q2) # char_of (0x80 + m2) # char_of (0x80 + m1) # rest)
        = ((0xE0 + q2) mod 16 * 4096 + (0x80 + m2) mod 64 * 64 + (0x80 + m1) mod 64, 3)"
      using q2 m1 lo hi by (subst DecodeRune_three(3)) (simp_all only: oc0 oc1 oc2, simp_all)
    also have "(0xE0 + q2) mod 16 = q2" using q2 by (subst mod16) simp_all
    also have "(0x80 + m2) mod 64 = m2" using m2 by (subst mod64) simp_all
    also have "(0x80 + m1) mod 64 = m1" using m1 by (subst mod64) simp_all
    finally show ?thesis using enc r1 r2 by simp
  next
    case 4
    from 4 r0 rmax sur have enc: "EncodeRune r
        = [char_of (0xF0 + q3), char_of (0x80 + m3), char_of (0x80 + m2), char_of (0x80 + m1)]"
      by (auto simp: EncodeRune_def names)
    from 4 rmax r1 r2 r3 m1 m2 m3 have q3: "0 \<le> q3" "q3 \<le> 4" by linarith+
    have oc0: "(of_char (char_of (0xF0 + q3)) :: int) = 0xF0 + q3"
      using q3 by (intro of_char_char_of_byte) linarith+
    have oc1: "(of_char (char_of (0x80 + m3)) :: int) = 0x80 + m3"
      using m3 by (intro of_char_char_of_byte) linarith+
    have oc2: "(of_char (char_of (0x80 + m2)) :: int) = 0x80 + m2"
      using m2 by (intro of_char_char_of_byte) linarith+
    have oc3: "(of_char (char_of (0x80 + m1)) :: int) = 0x80 + m1"
      using m1 by (intro of_char_char_of_byte) linarith+
    have lo: "fst (accept_range (0xF0 + q3)) \<le> 0x80 + m3"
    proof (cases "q3 = 0")
      case True
      with 4 r1 r2 r3 m1 m2 have "16 \<le> m3" by linarith
      with True show ?thesis by (simp add: accept_range_def)
    next
      case False
      with m3 q3 show ?thesis by (simp add: accept_range_def)
    qed
    have hi: "0x80 + m3 \<le> snd (accept_range (0xF0 + q3))"
    proof (cases "q3 = 4")
      case True
      with rmax r1 r2 r3 m1 m2 have "m3 < 16" by linarith
      with True show ?thesis by (simp add: accept_range_def)
    next
      case False
      with m3 q3 show ?thesis by (simp add: accept_range_def)
    qed
    have "DecodeRune (char_of (0xF0 + q3) # char_of (0x80 + m3) # char_of (0x80 + m2)
          # char_of (0x80 + m1) # rest)
        = ((0xF0 + q3) mod 8 * 262144 + (0x80 + m3) mod 64 * 4096 + (0x80 + m2) mod 64 * 64
           + (0x80 + m1) mod 64, 4)"
      using q3 m1 m2 lo hi
      by (subst DecodeRune_four(4)) (simp_all only: oc0 oc1 oc2 oc3, simp_all)
    also have "(0xF0 + q3) mod 8 = q3" using q3 by (subst mod8) simp_all
    also have "(0x80 + m3) mod 64 = m3" using m3 by (subst mod64) simp_all
    also have "(0x80 + m2) mod 64 = m2" using m2 by (subst mod64) simp_all
    also have "(0x80 + m1) mod 64 = m1" using m1 by (subst mod64) simp_all
    finally show ?thesis using enc r1 r2 r3 by simp
  qed
qed

lemma EncodeRune_nonempty: "EncodeRune r \<noteq> []"
  by (simp add: EncodeRune_def)

lemma runes_of_string_of_runes:
  "(\<And>r. r \<in> set rs \<Longrightarrow> valid_rune r) \<Longrightarrow> runes_of (string_of_runes rs) = rs"
proof (induction rs)
  case Nil
  show ?case by (simp add: string_of_runes_def)
next
  case (Cons r rs)
  obtain c cs where enc: "EncodeRune r = c # cs"
    using EncodeRune_nonempty [of r] by (cases "EncodeRune r") auto
  from Cons.prems have "valid_rune r" by simp
  from DecodeRune_EncodeRune [OF this, of "string_of_runes rs"] enc
  have d: "DecodeRune (c # cs @ string_of_runes rs) = (r, Suc (length cs))" by simp
  from Cons have "runes_of (string_of_runes rs) = rs" by simp
  with d enc show ?case by (simp add: string_of_runes_def)
qed

lemma EncodeRune_no_ascii:
  assumes a: "(of_char a :: int) < 0x80" and r: "r \<noteq> of_char a"
  shows "a \<notin> set (EncodeRune r)"
proof -
  have hi: "\<And>x. 0x80 \<le> x \<Longrightarrow> x < 256 \<Longrightarrow> a \<noteq> char_of (x :: int)"
  proof
    fix x :: int assume x: "0x80 \<le> x" "x < 256" and "a = char_of x"
    then have "(of_char a :: int) = x" by auto
    with a x show False by simp
  qed
  define q1 m1 where "q1 = r div 64" and "m1 = r mod 64"
  define q2 m2 where "q2 = q1 div 64" and "m2 = q1 mod 64"
  define q3 m3 where "q3 = q2 div 64" and "m3 = q2 mod 64"
  have r1: "r = q1 * 64 + m1" and m1: "0 \<le> m1" "m1 < 64"
    by (simp_all add: q1_def m1_def)
  have r2: "q1 = q2 * 64 + m2" and m2: "0 \<le> m2" "m2 < 64"
    by (simp_all add: q2_def m2_def)
  have r3: "q2 = q3 * 64 + m3" and m3: "0 \<le> m3" "m3 < 64"
    by (simp_all add: q3_def m3_def)
  have d2: "r div 4096 = q2"
    using zdiv_zmult2_eq [of 64 r 64] by (simp add: q1_def q2_def)
  have d3: "r div 262144 = q3"
    using zdiv_zmult2_eq [of 64 r 4096] d2 by (simp add: q3_def)
  note names = q1_def [symmetric] m1_def [symmetric] m2_def [symmetric] m3_def [symmetric] d2 d3
  consider "r < 0" | "0 \<le> r" "r < 0x80" | "0x80 \<le> r" "r < 0x800"
    | "0x800 \<le> r" "(0xD800 \<le> r \<and> r \<le> 0xDFFF) \<or> 0x10FFFF < r"
    | "0x800 \<le> r" "r < 0x10000" "\<not> ((0xD800 \<le> r \<and> r \<le> 0xDFFF) \<or> 0x10FFFF < r)"
    | "0x10000 \<le> r" "\<not> ((0xD800 \<le> r \<and> r \<le> 0xDFFF) \<or> 0x10FFFF < r)"
    by linarith
  then show ?thesis
  proof cases
    case 1
    then have "EncodeRune r = [CHR 0xEF, CHR 0xBF, CHR 0xBD]" by (simp add: EncodeRune_def)
    moreover have "a \<notin> set [CHR 0xEF, CHR 0xBF, CHR 0xBD]" using a by auto
    ultimately show ?thesis by simp
  next
    case 2
    then have enc: "EncodeRune r = [char_of r]" by (simp add: EncodeRune_def)
    have "char_of r \<noteq> a"
    proof
      assume "char_of r = a"
      then have "(of_char a :: int) = r mod 256" by auto
      with 2 r show False by simp
    qed
    with enc show ?thesis by simp
  next
    case 3
    then have enc: "EncodeRune r = [char_of (0xC0 + q1), char_of (0x80 + m1)]"
      by (simp add: EncodeRune_def names)
    from 3 r1 m1 have "0 \<le> q1" "q1 < 32" by linarith+
    with m1 enc show ?thesis by (simp add: hi)
  next
    case 4
    then have "EncodeRune r = [CHR 0xEF, CHR 0xBF, CHR 0xBD]" by (auto simp: EncodeRune_def)
    moreover have "a \<notin> set [CHR 0xEF, CHR 0xBF, CHR 0xBD]" using a by auto
    ultimately show ?thesis by simp
  next
    case 5
    then have enc: "EncodeRune r
        = [char_of (0xE0 + q2), char_of (0x80 + m2), char_of (0x80 + m1)]"
      by (auto simp: EncodeRune_def names)
    from 5 r1 r2 m1 m2 have "0 \<le> q2" "q2 < 16" by linarith+
    with m1 m2 enc show ?thesis by (simp add: hi)
  next
    case 6
    then have enc: "EncodeRune r
        = [char_of (0xF0 + q3), char_of (0x80 + m3), char_of (0x80 + m2), char_of (0x80 + m1)]"
      by (auto simp: EncodeRune_def names)
    from 6 r1 r2 r3 m1 m2 m3 have "0 \<le> q3" "q3 \<le> 4" by linarith+
    with m1 m2 m3 enc show ?thesis by (simp add: hi)
  qed
qed

lemma string_of_runes_no_ascii:
  "(of_char a :: int) < 0x80 \<Longrightarrow> of_char a \<notin> set rs \<Longrightarrow> a \<notin> set (string_of_runes rs)"
  by (induction rs) (auto simp: string_of_runes_def EncodeRune_no_ascii)

lemma string_of_runes_append:
  "string_of_runes (xs @ ys) = string_of_runes xs @ string_of_runes ys"
  by (simp add: string_of_runes_def)

lemma keeps_ascii: "keeps k \<Longrightarrow> 0 \<le> k \<and> k < 0x80"
  by (auto simp: keeps_def)

lemma mask_ascii: "0 \<le> mask r \<and> mask r < 0x80"
  by (auto simp: mask_def keeps_def)

lemma mask_valid: "valid_rune (mask r)"
  using mask_ascii [of r] by (simp add: valid_rune_def)

lemma mask_eq_kept: "keeps k \<Longrightarrow> mask r = k \<longleftrightarrow> r = k"
  by (auto simp: mask_def keeps_def)

lemma string_of_runes_ascii:
  "\<forall>r \<in> set rs. 0 \<le> r \<and> r < 0x80 \<Longrightarrow> string_of_runes rs = map char_of rs"
  by (induction rs) (auto simp: string_of_runes_def EncodeRune_def)

section \<open>The redactors applied to their own output\<close>

lemma mask_kept: "keeps k \<Longrightarrow> mask k = k"
  by (simp add: mask_def)

lemma censor_window_shape:
  assumes k: "keeps k" and e: "length R1 \<le> e"
  shows "map mask (take e (R1 @ k # R2)) @ drop e (R1 @ k # R2)
       = map mask R1 @ k # (map mask (take (e - Suc (length R1)) R2) @ drop (e - Suc (length R1)) R2)"
proof (cases "e = length R1")
  case True
  then show ?thesis by simp
next
  case False
  with e obtain j where j: "e = length R1 + Suc j"
    by (metis add_Suc_right le_neq_implies_less less_imp_Suc_add)
  then show ?thesis using k by (simp add: mask_kept)
qed

lemma second_pass_fixed:
  assumes k: "keeps k"
  shows "censor_loop (map mask R1 @ k # Y) 0 (int (length R1)) = Inr (map mask R1 @ k # Y)"
proof -
  have "censor_loop (map mask R1 @ k # Y) (int 0) (int (length R1))
      = Inr (take 0 (map mask R1 @ k # Y)
             @ map mask (take (length R1 - 0) (drop 0 (map mask R1 @ k # Y)))
             @ drop (length R1) (map mask R1 @ k # Y))"
    by (rule censor_loop_window) simp_all
  then show ?thesis by (simp add: mask_mask)
qed

text \<open>What one pass leaves when the window ends at the byte offset of a kept ASCII byte.\<close>

lemma first_pass_shape:
  assumes a: "(of_char a :: int) < 0x80" and k: "keeps (of_char a)"
    and run: "censor_loop (runes_of (pre @ a # post)) 0 (int (length pre)) = Inr rs'"
  obtains Y where "rs' = map mask (runes_of pre) @ of_char a # Y"
    and "set Y \<subseteq> mask ` set (runes_of post) \<union> set (runes_of post)"
proof -
  let ?R1 = "runes_of pre" and ?R2 = "runes_of post"
  let ?j = "length pre - Suc (length ?R1)"
  have rs: "runes_of (pre @ a # post) = ?R1 @ of_char a # ?R2"
    using a by (rule runes_of_append_ascii)
  have le: "length ?R1 \<le> length pre" by (rule runes_of_length)
  from censor_loop_from_start [OF run]
  have "rs' = map mask (take (length pre) (?R1 @ of_char a # ?R2))
              @ drop (length pre) (?R1 @ of_char a # ?R2)"
    unfolding rs by (cases "length pre = 0") auto
  also have "\<dots> = map mask ?R1 @ of_char a # (map mask (take ?j ?R2) @ drop ?j ?R2)"
    using k le by (rule censor_window_shape)
  finally have shape: "rs' = map mask ?R1 @ of_char a # (map mask (take ?j ?R2) @ drop ?j ?R2)" .
  have "set (map mask (take ?j ?R2) @ drop ?j ?R2) \<subseteq> mask ` set ?R2 \<union> set ?R2"
    by (auto dest: in_set_takeD in_set_dropD)
  with shape show thesis by (rule that)
qed

lemma masked_bytes:
  "string_of_runes (map mask R @ k # Y) = map char_of (map mask R) @ EncodeRune k @ string_of_runes Y"
proof -
  have "string_of_runes (map mask R) = map char_of (map mask R)"
    by (rule string_of_runes_ascii) (auto simp: mask_ascii)
  then show ?thesis by (simp add: string_of_runes_append) (simp add: string_of_runes_def)
qed

lemma masked_bytes_without:
  assumes a: "(of_char a :: int) < 0x80" and k: "keeps (of_char a)" and R: "of_char a \<notin> set R"
  shows "a \<notin> set (map char_of (map mask R))"
proof
  assume "a \<in> set (map char_of (map mask R))"
  then obtain r where r: "r \<in> set R" "a = char_of (mask r)" by auto
  from r(2) mask_ascii [of r] have "(of_char a :: int) = mask r" by simp
  with mask_eq_kept [OF k, of r] have "r = of_char a" by simp
  with r(1) R show False by simp
qed

lemma EncodeRune_ascii: "(of_char a :: int) < 0x80 \<Longrightarrow> EncodeRune (of_char a) = [a]"
  using byte_range(1) [of a] by (simp add: EncodeRune_def)

lemma kept_not_in_rest:
  assumes k: "keeps k" and R: "k \<notin> set R2" and Y: "set Y \<subseteq> mask ` set R2 \<union> set R2"
  shows "k \<notin> set Y"
proof
  assume "k \<in> set Y"
  with Y have "k \<in> mask ` set R2 \<or> k \<in> set R2" by auto
  with R obtain r where "r \<in> set R2" "mask r = k" by auto
  with k R show False by (simp add: mask_eq_kept)
qed

lemma rest_valid:
  assumes "set Y \<subseteq> mask ` set (runes_of post) \<union> set (runes_of post)" and "r \<in> set Y"
  shows "valid_rune r"
  using assms by (auto simp: mask_valid runes_of_valid)

lemma reencode_fixed: "runes_of (string_of_runes (runes_of s)) = runes_of s"
  by (rule runes_of_string_of_runes) (rule runes_of_valid)

text \<open>
  \<open>censorNetBlock\<close> and \<open>censorIP\<close> return their own output unchanged, for every string
  of bytes on which they return. \<open>censorDomain\<close> does so for every string of ASCII bytes.
\<close>

lemma censorNetBlock_idempotent: "twice censorNetBlock s = censorNetBlock s"
proof (cases "censorNetBlock s")
  case (Inl e)
  then show ?thesis by (simp add: twice_def)
next
  case (Inr t)
  have a: "(of_char CHR ''/'' :: int) < 0x80" and k: "keeps (of_char CHR ''/'')"
    by (simp_all add: keeps_def)
  have "censorNetBlock t = Inr t"
  proof (cases "first_index ''/'' s")
    case None
    then have no: "CHR ''/'' \<notin> set s"
      by (induction s) (auto split: if_splits)
    with Inr have t: "t = string_of_runes (runes_of s)"
      by (simp add: censorNetBlock_without_slash)
    from a no have "CHR ''/'' \<notin> set t"
      unfolding t by (intro string_of_runes_no_ascii runes_of_no_ascii)
    then show ?thesis
      by (simp add: censorNetBlock_without_slash) (simp add: t reencode_fixed)
  next
    case (Some e)
    from first_index_found [OF Some] obtain pre post
      where s: "s = pre @ CHR ''/'' # post" and pre: "CHR ''/'' \<notin> set pre" and e: "e = length pre"
      by blast
    from Inr Some e obtain rs' where run: "censor_loop (runes_of s) 0 (int (length pre)) = Inr rs'"
      and t: "t = string_of_runes rs'"
      by (auto simp: censorNetBlock_def censorString_def Index_def split: sum.splits)
    from first_pass_shape [OF a k run [unfolded s]] obtain Y
      where shape: "rs' = map mask (runes_of pre) @ of_char CHR ''/'' # Y"
        and Y: "set Y \<subseteq> mask ` set (runes_of post) \<union> set (runes_of post)"
      by blast
    have bytes: "t = map char_of (map mask (runes_of pre)) @ CHR ''/'' # string_of_runes Y"
      unfolding t shape masked_bytes using EncodeRune_ascii [OF a] by simp
    have "CHR ''/'' \<notin> set (map char_of (map mask (runes_of pre)))"
      using a k pre by (intro masked_bytes_without runes_of_no_ascii)
    then have idx: "first_index ''/'' t = Some (length (runes_of pre))"
      unfolding bytes using first_index_at [of "CHR ''/''" "map char_of (map mask (runes_of pre))"]
      by simp
    have "valid_rune (of_char CHR ''/'')" by (simp add: valid_rune_def)
    then have valid: "\<And>r. r \<in> set rs' \<Longrightarrow> valid_rune r"
      unfolding shape using rest_valid [OF Y] by (auto simp: mask_valid)
    have redecode: "runes_of t = rs'"
      unfolding t using valid by (rule runes_of_string_of_runes)
    have "censor_loop rs' 0 (int (length (runes_of pre))) = Inr rs'"
      unfolding shape using k by (rule second_pass_fixed)
    with idx redecode t show ?thesis
      by (simp add: censorNetBlock_def censorString_def Index_def)
  qed
  with Inr show ?thesis by (simp add: twice_def)
qed

lemma censorIP_idempotent: "twice censorIP s = censorIP s"
proof (cases "censorIP s")
  case (Inl e)
  then show ?thesis by (simp add: twice_def)
next
  case (Inr t)
  have a: "(of_char CHR ''.'' :: int) < 0x80" and k: "keeps (of_char CHR ''.'')"
    by (simp_all add: keeps_def)
  have "censorIP t = Inr t"
  proof (cases "last_index ''.'' s")
    case None
    then have no: "CHR ''.'' \<notin> set s"
      by (induction s) (auto split: if_splits option.splits)
    with Inr have t: "t = string_of_runes (runes_of s)"
      by (simp add: censorIP_without_dot)
    from a no have "CHR ''.'' \<notin> set t"
      unfolding t by (intro string_of_runes_no_ascii runes_of_no_ascii)
    then show ?thesis
      by (simp add: censorIP_without_dot) (simp add: t reencode_fixed)
  next
    case (Some e)
    from last_index_found [OF Some] obtain pre post
      where s: "s = pre @ CHR ''.'' # post" and post: "CHR ''.'' \<notin> set post" and e: "e = length pre"
      by blast
    from Inr Some e obtain rs' where run: "censor_loop (runes_of s) 0 (int (length pre)) = Inr rs'"
      and t: "t = string_of_runes rs'"
      by (auto simp: censorIP_def censorString_def LastIndex_def split: sum.splits)
    from first_pass_shape [OF a k run [unfolded s]] obtain Y
      where shape: "rs' = map mask (runes_of pre) @ of_char CHR ''.'' # Y"
        and Y: "set Y \<subseteq> mask ` set (runes_of post) \<union> set (runes_of post)"
      by blast
    have bytes: "t = map char_of (map mask (runes_of pre)) @ CHR ''.'' # string_of_runes Y"
      unfolding t shape masked_bytes using EncodeRune_ascii [OF a] by simp
    have "of_char CHR ''.'' \<notin> set Y"
      using k runes_of_no_ascii [OF a post] Y by (rule kept_not_in_rest)
    with a have "CHR ''.'' \<notin> set (string_of_runes Y)"
      by (rule string_of_runes_no_ascii)
    then have idx: "last_index ''.'' t = Some (length (runes_of pre))"
      unfolding bytes using last_index_at [of "CHR ''.''" "string_of_runes Y"
          "map char_of (map mask (runes_of pre))"]
      by simp
    have "valid_rune (of_char CHR ''.'')" by (simp add: valid_rune_def)
    then have valid: "\<And>r. r \<in> set rs' \<Longrightarrow> valid_rune r"
      unfolding shape using rest_valid [OF Y] by (auto simp: mask_valid)
    have redecode: "runes_of t = rs'"
      unfolding t using valid by (rule runes_of_string_of_runes)
    have "censor_loop rs' 0 (int (length (runes_of pre))) = Inr rs'"
      unfolding shape using k by (rule second_pass_fixed)
    with idx redecode t show ?thesis
      by (simp add: censorIP_def censorString_def LastIndex_def)
  qed
  with Inr show ?thesis by (simp add: twice_def)
qed

lemma runes_of_ascii:
  "\<forall>c \<in> set s. (of_char c :: int) < 0x80 \<Longrightarrow> runes_of s = map of_char s"
  by (induction s) (simp_all add: DecodeRune_ascii)

lemma censorDomain_idempotent_ascii:
  assumes ascii: "\<forall>c \<in> set s. (of_char c :: int) < 0x80"
  shows "twice censorDomain s = censorDomain s"
proof (cases "censorDomain s")
  case (Inl e)
  then show ?thesis by (simp add: twice_def)
next
  case (Inr t)
  have k: "keeps (of_char CHR ''.'')" by (simp add: keeps_def)
  have dot: "CHR ''.'' \<in> set s"
    using Inr censorDomain_without_dot [of s] by auto
  have "first_index ''.'' s \<noteq> None"
    using dot by (induction s) auto
  then obtain e where "first_index ''.'' s = Some e" by auto
  from first_index_found [OF this] this obtain pre post
    where s: "s = pre @ CHR ''.'' # post" and pre: "CHR ''.'' \<notin> set pre"
      and idx: "first_index ''.'' s = Some (length pre)"
    by blast
  let ?rs = "map of_char s :: rune list"
  let ?rs' = "map of_char pre @ of_char CHR ''.'' # map mask (map of_char post) :: rune list"
  have rs: "runes_of s = ?rs" using ascii by (rule runes_of_ascii)
  have "censor_loop ?rs (int (length pre)) (int (length s))
      = Inr (take (length pre) ?rs @ map mask (take (length s - length pre) (drop (length pre) ?rs))
             @ drop (length s) ?rs)"
    by (rule censor_loop_window) (simp_all add: s)
  also have "\<dots> = Inr ?rs'" using k by (simp add: s mask_kept)
  finally have run: "censor_loop ?rs (int (length pre)) (int (length s)) = Inr ?rs'" .
  with Inr idx rs have t: "t = string_of_runes ?rs'"
    by (simp add: censorDomain_def censorString_def Index_def)
  have small: "\<forall>r \<in> set ?rs'. 0 \<le> r \<and> r < 0x80"
    using ascii byte_range(1) by (auto simp: s mask_ascii)
  then have bytes: "t = map char_of ?rs'"
    unfolding t by (rule string_of_runes_ascii)
  have "char_of (of_char CHR ''.'' :: int) = CHR ''.''" by (rule char_of_char)
  then have dotc: "char_of (46 :: int) = CHR ''.''" by simp
  from bytes have t': "t = pre @ CHR ''.'' # map char_of (map mask (map of_char post))"
    by (simp add: comp_def dotc)
  have len: "length t = length s" by (simp add: t' s)
  have idx': "first_index ''.'' t = Some (length pre)"
    unfolding t' using pre by (rule first_index_at)
  have "valid_rune r" if "r \<in> set ?rs'" for r
  proof -
    from small that have "0 \<le> r \<and> r < 0x80" by blast
    then show ?thesis by (simp add: valid_rune_def)
  qed
  then have redecode: "runes_of t = ?rs'"
    unfolding t by (rule runes_of_string_of_runes)
  have "censor_loop ?rs' (int (length pre)) (int (length t))
      = Inr (take (length pre) ?rs' @ map mask (take (length t - length pre) (drop (length pre) ?rs'))
             @ drop (length t) ?rs')"
    by (rule censor_loop_window) (simp_all add: len s)
  also have "\<dots> = Inr ?rs'" using k by (simp add: len s mask_kept mask_mask)
  finally have "censor_loop ?rs' (int (length pre)) (int (length t)) = Inr ?rs'" .
  with idx' redecode t have "censorDomain t = Inr t"
    by (simp add: censorDomain_def censorString_def Index_def)
  with Inr show ?thesis by (simp add: twice_def)
qed

section \<open>The claims\<close>

text \<open>
  C1. The specification's example feeds the records
  \<open>"15133 (ASN) --> is --> Akamai Technologies (RIROrganization)"\<close> and
  \<open>"93.184.0.0/16 (Netblock)"\<close> and expects the entry \<open>15133\<close> with organization
  \<open>Akamai Technologies\<close> and netblock set \<open>{93.184.0.0/16}\<close>. The second record has no
  separator, so it is one segment and the parser skips it: the entry is created with
  the organization, and its netblock list stays empty.
\<close>

theorem akamai_example_counterexample:
  "summarize [''15133 (ASN) --> is --> Akamai Technologies (RIROrganization)'',
              ''93.184.0.0/16 (Netblock)'']
   = Inr \<lparr>asns = [(''15133'', \<lparr>organization = ''Akamai Technologies'',
                               netblocks = [], fqdn_list = []\<rparr>)],
          fqdns = []\<rparr>"
  by code_simp

text \<open>
  C1, as amended. After the two records of the example the entry \<open>15133\<close> has the
  organization \<open>Akamai Technologies\<close> and no netblock; when the netblock arrives as the
  third segment of a three-segment record, the netblock set of the entry is exactly
  \<open>{93.184.0.0/16}\<close>.
\<close>

theorem akamai_example_amended:
  "(case summarize [''15133 (ASN) --> is --> Akamai Technologies (RIROrganization)'',
                    ''93.184.0.0/16 (Netblock)''] of
      Inl e \<Rightarrow> False
    | Inr st \<Rightarrow>
        map fst (asns st) = [''15133''] \<and>
        map_option organization (map_of (asns st) ''15133'') = Some ''Akamai Technologies'' \<and>
        map_option (set \<circ> netblocks) (map_of (asns st) ''15133'') = Some {})
   \<and>
   (case summarize [''15133 (ASN) --> is --> Akamai Technologies (RIROrganization)'',
                    ''15133 (ASN) --> announces --> 93.184.0.0/16 (Netblock)''] of
      Inl e \<Rightarrow> False
    | Inr st \<Rightarrow>
        map fst (asns st) = [''15133''] \<and>
        map_option organization (map_of (asns st) ''15133'') = Some ''Akamai Technologies'' \<and>
        map_option (set \<circ> netblocks) (map_of (asns st) ''15133'') = Some {''93.184.0.0/16''})"
proof -
  have a: "summarize [''15133 (ASN) --> is --> Akamai Technologies (RIROrganization)'',
                      ''93.184.0.0/16 (Netblock)'']
      = Inr \<lparr>asns = [(''15133'', \<lparr>organization = ''Akamai Technologies'',
                                  netblocks = [], fqdn_list = []\<rparr>)],
             fqdns = []\<rparr>"
    by code_simp
  have b: "summarize [''15133 (ASN) --> is --> Akamai Technologies (RIROrganization)'',
                      ''15133 (ASN) --> announces --> 93.184.0.0/16 (Netblock)'']
      = Inr \<lparr>asns = [(''15133'', \<lparr>organization = ''Akamai Technologies'',
                                  netblocks = [''93.184.0.0/16''], fqdn_list = []\<rparr>)],
             fqdns = []\<rparr>"
    by code_simp
  show ?thesis unfolding a b by simp
qed

text \<open>
  C2. The claim is that each of the three redactors returns for every input, and in
  particular when its separator is absent. \<open>censorDomain\<close> does not: for \<open>"localhost"\<close>
  the start of the window is \<open>strings.Index(input, ".") = -1\<close> and the first access is
  \<open>runes[-1]\<close>. (Lemma \<open>censorDomain_without_dot\<close> has this for every input without
  a \<open>'.'\<close>; \<open>censorIP_without_dot\<close> and \<open>censorNetBlock_without_slash\<close> show that the
  other two redactors do return without their separator.)
\<close>

theorem censorDomain_without_separator_panics:
  "censorDomain ''localhost'' = Inl (IndexOutOfRange (- 1) 9)"
  by code_simp

text \<open>
  C3. The claim is that folding a line into the index never faults. The ASN branch tests
  for the suffix \<open>"(ASN)"\<close> (five bytes) and then cuts \<open>len(" (ASN)")\<close> (six bytes) off
  the left segment: a left segment that is the bare tag gives the slice \<open>left[:-1]\<close>.
\<close>

theorem bare_asn_tag_panics:
  "process_record st ''(ASN) --> is --> Example (RIROrganization)''
   = Inl (SliceBoundsOutOfRange (- 1) 5)"
proof -
  have parts: "Split ''(ASN) --> is --> Example (RIROrganization)'' '' --> ''
      = [''(ASN)'', ''is'', ''Example (RIROrganization)'']"
    by code_simp
  have l: "TrimSpace ''(ASN)'' = ''(ASN)''" by code_simp
  have v: "TrimSpace ''Example (RIROrganization)'' = ''Example (RIROrganization)''"
    by code_simp
  have nb: "\<not> HasSuffix ''Example (RIROrganization)'' '' (Netblock)''" by code_simp
  have asn: "HasSuffix ''(ASN)'' ''(ASN)''" by code_simp
  show ?thesis
    by (simp add: process_record_def parts l v classify_relation_def nb asn slice_to_def)
qed

text \<open>
  C4. The claim is that each redactor, applied to its own output, returns that output.
  For the input consisting of the byte \<open>0xFF\<close> followed by \<open>".com"\<close>, \<open>censorDomain\<close> returns
  U+FFFD followed by \<open>".xxx"\<close>: seven bytes, five runes. Applied to that, the window ends
  at the byte length 7 and the access \<open>runes[5]\<close> panics. (Whenever the first pass of one
  of the other two redactors returns, the second pass returns the same string, and so it
  is for \<open>censorDomain\<close> on ASCII input: lemmas \<open>censorIP_idempotent\<close>,
  \<open>censorNetBlock_idempotent\<close>, \<open>censorDomain_idempotent_ascii\<close>.)
\<close>

theorem censorDomain_not_idempotent:
  "censorDomain [CHR 0xFF, CHR ''.'', CHR ''c'', CHR ''o'', CHR ''m'']
     = Inr [CHR 0xEF, CHR 0xBF, CHR 0xBD, CHR ''.'', CHR ''x'', CHR ''x'', CHR ''x'']
   \<and> censorDomain [CHR 0xEF, CHR 0xBF, CHR 0xBD, CHR ''.'', CHR ''x'', CHR ''x'', CHR ''x'']
     = Inl (IndexOutOfRange 5 5)
   \<and> twice censorDomain [CHR 0xFF, CHR ''.'', CHR ''c'', CHR ''o'', CHR ''m'']
     \<noteq> censorDomain [CHR 0xFF, CHR ''.'', CHR ''c'', CHR ''o'', CHR ''m'']"
  by code_simp

text \<open>
  C5. A record with at least three segments whose third segment (the final one of a
  three-segment line), read as the parser reads it, ends with the Netblock tag: the
  extracted netblock is appended to the netblock list of every entry of the index, and
  the index has the same keys, in the same entries, as before. The FQDN map is untouched.
\<close>

theorem netblock_fan_out:
  assumes "distinct_keys st"
    and "3 \<le> length (Split record '' --> '')"
    and "HasSuffix (record_value record) '' (Netblock)''"
  shows "process_record st record =
     Inr (st\<lparr>asns := map (\<lambda>(asnID, d).
            (asnID, d\<lparr>netblocks := netblocks d @
                [TrimSuffix (record_value record) '' (Netblock)'']\<rparr>)) (asns st)\<rparr>)"
proof -
  from assms(1) have "distinct (map fst (asns st))" by (simp add: distinct_keys_def)
  from classify_netblock [OF this assms(3)] assms(2) show ?thesis
    by (simp add: process_record_segments)
qed

theorem netblock_fan_out_witness:
  "distinct_keys
     \<lparr>asns = [(''15133'', \<lparr>organization = ''Akamai Technologies'', netblocks = [],
                          fqdn_list = []\<rparr>),
              (''64512'', \<lparr>organization = ''Example Org'', netblocks = [''10.0.0.0/24''],
                          fqdn_list = [''a.example.com (FQDN)'']\<rparr>)],
      fqdns = [(''a.example.com (FQDN)'', ''10.0.0.7 (IPAddress)'')]\<rparr>
   \<and> length (Split ''15133 (ASN) --> announces --> 93.184.0.0/16 (Netblock)'' '' --> '') = 3
   \<and> HasSuffix (record_value ''15133 (ASN) --> announces --> 93.184.0.0/16 (Netblock)'')
         '' (Netblock)''
   \<and> process_record
     \<lparr>asns = [(''15133'', \<lparr>organization = ''Akamai Technologies'', netblocks = [],
                          fqdn_list = []\<rparr>),
              (''64512'', \<lparr>organization = ''Example Org'', netblocks = [''10.0.0.0/24''],
                          fqdn_list = [''a.example.com (FQDN)'']\<rparr>)],
      fqdns = [(''a.example.com (FQDN)'', ''10.0.0.7 (IPAddress)'')]\<rparr>
     ''15133 (ASN) --> announces --> 93.184.0.0/16 (Netblock)''
   = Inr
     \<lparr>asns = [(''15133'', \<lparr>organization = ''Akamai Technologies'',
                          netblocks = [''93.184.0.0/16''], fqdn_list = []\<rparr>),
              (''64512'', \<lparr>organization = ''Example Org'',
                          netblocks = [''10.0.0.0/24'', ''93.184.0.0/16''],
                          fqdn_list = [''a.example.com (FQDN)'']\<rparr>)],
      fqdns = [(''a.example.com (FQDN)'', ''10.0.0.7 (IPAddress)'')]\<rparr>"
proof -
  let ?st = "\<lparr>asns = [(''15133'', \<lparr>organization = ''Akamai Technologies'', netblocks = [],
                          fqdn_list = []\<rparr>),
              (''64512'', \<lparr>organization = ''Example Org'', netblocks = [''10.0.0.0/24''],
                          fqdn_list = [''a.example.com (FQDN)'']\<rparr>)],
      fqdns = [(''a.example.com (FQDN)'', ''10.0.0.7 (IPAddress)'')]\<rparr>"
  let ?r = "''15133 (ASN) --> announces --> 93.184.0.0/16 (Netblock)''"
  have h1: "distinct_keys ?st" by (simp add: distinct_keys_def)
  have len: "length (Split ?r '' --> '') = 3" by code_simp
  then have h2: "3 \<le> length (Split ?r '' --> '')" by simp
  have h3: "HasSuffix (record_value ?r) '' (Netblock)''" by code_simp
  have nb: "TrimSuffix (record_value ?r) '' (Netblock)'' = ''93.184.0.0/16''" by code_simp
  from netblock_fan_out [OF h1 h2 h3] h1 len h3 show ?thesis
    by (simp add: nb)
qed

text \<open>
  C6. When the file is created, what is written is the report in which the header of
  every ASN block carries \<open>Subdomains: N\<close> for one and the same \<open>N\<close>, the length of the
  FQDN map, whatever the order in which the ASNs are visited and whatever the order in
  which the FQDNs are visited within each block: the first \<open>q\<close> strings of that report if
  only \<open>q\<close> writes succeed, and the whole report exactly when no write fails. The length of
  the map is the number of its keys, so \<open>N\<close> is the number of FQDNs known to the whole
  report, not that of the ASN. (In the instance that follows the theorem, two FQDNs are
  visited in one order within the first block and in the other order within the second,
  and both headers say \<open>Subdomains: 2\<close>.)
\<close>

theorem subdomains_line_uses_total_count:
  assumes "disk filename = Some q"
  shows "fst (SaveASNDetailsToFile disk visit filename asns_visit fqdns_map)
           = Some (take q (report_with_count (length fqdns_map) visit asns_visit fqdns_map))
       \<and> (snd (SaveASNDetailsToFile disk visit filename asns_visit fqdns_map) = None
           \<longleftrightarrow> length (report_with_count (length fqdns_map) visit asns_visit fqdns_map) \<le> q)
       \<and> (distinct (map fst fqdns_map) \<longrightarrow> length fqdns_map = card (dom (map_of fqdns_map)))"
proof -
  obtain q' out err
    where w: "write_asn_blocks visit fqdns_map asns_visit (q, []) = ((q', out), err)"
    by (metis surj_pair)
  from write_asn_blocks_chunks [of visit fqdns_map asns_visit q "[]"] w
  have "out = take q (report_with_count (length fqdns_map) visit asns_visit fqdns_map)"
    and "err = None
      \<longleftrightarrow> length (report_with_count (length fqdns_map) visit asns_visit fqdns_map) \<le> q"
    by simp_all
  with assms w have "fst (SaveASNDetailsToFile disk visit filename asns_visit fqdns_map)
           = Some (take q (report_with_count (length fqdns_map) visit asns_visit fqdns_map))"
    and "snd (SaveASNDetailsToFile disk visit filename asns_visit fqdns_map) = None
           \<longleftrightarrow> length (report_with_count (length fqdns_map) visit asns_visit fqdns_map) \<le> q"
    by (simp_all add: SaveASNDetailsToFile_def)
  moreover have "distinct (map fst fqdns_map) \<longrightarrow> length fqdns_map = card (dom (map_of fqdns_map))"
    by (metis distinct_card dom_map_of_conv_image_fst length_map list.set_map)
  ultimately show ?thesis by blast
qed

theorem subdomains_line_uses_total_count_witness:
  "(\<lambda>name. if name = ''example.com_2026-11-03.txt'' then Some 100 else None)
      ''example.com_2026-11-03.txt'' = Some (100::nat)
   \<and> distinct (map fst [(''a.example.com (FQDN)'', ''10.0.0.7 (IPAddress)''),
                        (''b.example.com (FQDN)'', ''a.example.com (FQDN)'')])
   \<and> SaveASNDetailsToFile
        (\<lambda>name. if name = ''example.com_2026-11-03.txt'' then Some 100 else None)
        (\<lambda>asnID. if asnID = ''64512''
           then [(''b.example.com (FQDN)'', ''a.example.com (FQDN)''),
                 (''a.example.com (FQDN)'', ''10.0.0.7 (IPAddress)'')]
           else [(''a.example.com (FQDN)'', ''10.0.0.7 (IPAddress)''),
                 (''b.example.com (FQDN)'', ''a.example.com (FQDN)'')])
        ''example.com_2026-11-03.txt''
        [(''15133'', \<lparr>organization = ''Akamai Technologies'',
                      netblocks = [''93.184.0.0/16''], fqdn_list = []\<rparr>),
         (''64512'', \<lparr>organization = ''Example Org'',
                      netblocks = [''10.0.0.0/24'', ''93.184.0.0/16''],
                      fqdn_list = [''a.example.com (FQDN)'']\<rparr>)]
        [(''a.example.com (FQDN)'', ''10.0.0.7 (IPAddress)''),
         (''b.example.com (FQDN)'', ''a.example.com (FQDN)'')]
     = (Some [''ASN: 15133 - Akamai Technologies'' @ [CHR 0x0A, CHR 0x09] @
              ''Netblocks: 93.184.0.0/16'' @ [CHR 0x0A, CHR 0x09] @
              ''Subdomains: 2'' @ [CHR 0x0A],
              ''a.example.com: 10.0.0.7'' @ [CHR 0x0A],
              ''b.example.com: 10.0.0.7'' @ [CHR 0x0A],
              ''ASN: 64512 - Example Org'' @ [CHR 0x0A, CHR 0x09] @
              ''Netblocks: 10.0.0.0/24, 93.184.0.0/16'' @ [CHR 0x0A, CHR 0x09] @
              ''Subdomains: 2'' @ [CHR 0x0A],
              ''b.example.com: 10.0.0.7'' @ [CHR 0x0A],
              ''a.example.com: 10.0.0.7'' @ [CHR 0x0A]], None)
   \<and> length [(''a.example.com (FQDN)'', ''10.0.0.7 (IPAddress)''),
              (''b.example.com (FQDN)'', ''a.example.com (FQDN)'')]
     = card (dom (map_of [(''a.example.com (FQDN)'', ''10.0.0.7 (IPAddress)''),
                          (''b.example.com (FQDN)'', ''a.example.com (FQDN)'')]))"
proof -
  let ?disk = "\<lambda>name. if name = ''example.com_2026-11-03.txt'' then Some (100::nat) else None"
  let ?visit = "\<lambda>asnID. if asnID = ''64512''
           then [(''b.example.com (FQDN)'', ''a.example.com (FQDN)''),
                 (''a.example.com (FQDN)'', ''10.0.0.7 (IPAddress)'')]
           else [(''a.example.com (FQDN)'', ''10.0.0.7 (IPAddress)''),
                 (''b.example.com (FQDN)'', ''a.example.com (FQDN)'')]"
  let ?asns = "[(''15133'', \<lparr>organization = ''Akamai Technologies'',
                      netblocks = [''93.184.0.0/16''], fqdn_list = []\<rparr>),
         (''64512'', \<lparr>organization = ''Example Org'',
                      netblocks = [''10.0.0.0/24'', ''93.184.0.0/16''],
                      fqdn_list = [''a.example.com (FQDN)'']\<rparr>)]"
  let ?fq = "[(''a.example.com (FQDN)'', ''10.0.0.7 (IPAddress)''),
              (''b.example.com (FQDN)'', ''a.example.com (FQDN)'')]"
  have h: "?disk ''example.com_2026-11-03.txt'' = Some 100" by simp
  have d: "distinct (map fst ?fq)" by simp
  have rep: "report_with_count (length ?fq) ?visit ?asns ?fq =
      [''ASN: 15133 - Akamai Technologies'' @ [CHR 0x0A, CHR 0x09] @
       ''Netblocks: 93.184.0.0/16'' @ [CHR 0x0A, CHR 0x09] @
       ''Subdomains: 2'' @ [CHR 0x0A],
       ''a.example.com: 10.0.0.7'' @ [CHR 0x0A],
       ''b.example.com: 10.0.0.7'' @ [CHR 0x0A],
       ''ASN: 64512 - Example Org'' @ [CHR 0x0A, CHR 0x09] @
       ''Netblocks: 10.0.0.0/24, 93.184.0.0/16'' @ [CHR 0x0A, CHR 0x09] @
       ''Subdomains: 2'' @ [CHR 0x0A],
       ''b.example.com: 10.0.0.7'' @ [CHR 0x0A],
       ''a.example.com: 10.0.0.7'' @ [CHR 0x0A]]"
    by code_simp
  note inst = subdomains_line_uses_total_count
    [where disk = ?disk and filename = "''example.com_2026-11-03.txt''" and q = 100
       and visit = ?visit and asns_visit = ?asns and fqdns_map = ?fq]
  from inst h d
  have "fst (SaveASNDetailsToFile ?disk ?visit ''example.com_2026-11-03.txt'' ?asns ?fq)
          = Some (take 100 (report_with_count (length ?fq) ?visit ?asns ?fq))"
    and "snd (SaveASNDetailsToFile ?disk ?visit ''example.com_2026-11-03.txt'' ?asns ?fq) = None
          \<longleftrightarrow> length (report_with_count (length ?fq) ?visit ?asns ?fq) \<le> 100"
    and "length ?fq = card (dom (map_of ?fq))"
    by blast+
  then show ?thesis
    unfolding rep by (simp add: prod_eq_iff)
qed

text \<open>
  C7. The claim is that the netblocks and the FQDNs of an entry are sets, so that
  processing a relation a second time changes nothing and leaves no duplicate. They are
  slices grown with \<open>append\<close>: after an ASN record, the same netblock record processed
  twice leaves the netblock in the list twice.
\<close>

theorem netblocks_keep_duplicates_counterexample:
  "summarize [''15133 (ASN) --> is --> Akamai Technologies (RIROrganization)'',
              ''15133 (ASN) --> announces --> 93.184.0.0/16 (Netblock)'']
     = Inr \<lparr>asns = [(''15133'', \<lparr>organization = ''Akamai Technologies'',
                                 netblocks = [''93.184.0.0/16''], fqdn_list = []\<rparr>)],
            fqdns = []\<rparr>
   \<and> summarize [''15133 (ASN) --> is --> Akamai Technologies (RIROrganization)'',
                ''15133 (ASN) --> announces --> 93.184.0.0/16 (Netblock)'',
                ''15133 (ASN) --> announces --> 93.184.0.0/16 (Netblock)'']
     = Inr \<lparr>asns = [(''15133'', \<lparr>organization = ''Akamai Technologies'',
                                 netblocks = [''93.184.0.0/16'', ''93.184.0.0/16''],
                                 fqdn_list = []\<rparr>)],
            fqdns = []\<rparr>
   \<and> \<not> distinct [''93.184.0.0/16'', ''93.184.0.0/16'']"
  by code_simp

text \<open>
  C7, as amended. The netblocks and the FQDNs of an entry are lists that only grow.
  Processing a netblock record appends its netblock to the list of every entry, and
  processing it a second time appends it once more; likewise for a record that resolves
  an FQDN to an IP address and the FQDN lists, while the FQDN map, which is keyed, keeps
  one resolution. So the second pass adds no new element, but it adds a duplicate.
\<close>

theorem repeated_relation_appends_twice:
  assumes "distinct_keys st"
    and "3 \<le> length (Split nrecord '' --> '')"
    and "HasSuffix (record_value nrecord) '' (Netblock)''"
    and "3 \<le> length (Split frecord '' --> '')"
    and "HasSuffix (record_left frecord) ''(FQDN)''"
    and "HasSuffix (record_value frecord) ''(IPAddress)''"
  shows "parse_records st [nrecord] =
           Inr (st\<lparr>asns := map (\<lambda>(asnID, d). (asnID, d\<lparr>netblocks := netblocks d @
               [TrimSuffix (record_value nrecord) '' (Netblock)'']\<rparr>)) (asns st)\<rparr>)
       \<and> parse_records st [nrecord, nrecord] =
           Inr (st\<lparr>asns := map (\<lambda>(asnID, d). (asnID, d\<lparr>netblocks := netblocks d @
               [TrimSuffix (record_value nrecord) '' (Netblock)'',
                TrimSuffix (record_value nrecord) '' (Netblock)'']\<rparr>)) (asns st)\<rparr>)
       \<and> parse_records st [frecord] =
           Inr (st\<lparr>asns := map (\<lambda>(asnID, d). (asnID, d\<lparr>fqdn_list := fqdn_list d @
               [record_left frecord]\<rparr>)) (asns st),
               fqdns := AList.update (record_left frecord) (record_value frecord) (fqdns st)\<rparr>)
       \<and> parse_records st [frecord, frecord] =
           Inr (st\<lparr>asns := map (\<lambda>(asnID, d). (asnID, d\<lparr>fqdn_list := fqdn_list d @
               [record_left frecord, record_left frecord]\<rparr>)) (asns st),
               fqdns := AList.update (record_left frecord) (record_value frecord) (fqdns st)\<rparr>)"
proof (intro conjI)
  let ?x = "TrimSuffix (record_value nrecord) '' (Netblock)''"
  let ?st1 = "st\<lparr>asns := map (\<lambda>(k, d). (k, d\<lparr>netblocks := netblocks d @ [?x]\<rparr>)) (asns st)\<rparr>"
  have d0: "distinct (map fst (asns st))" using assms(1) by (simp add: distinct_keys_def)
  have d1: "distinct (map fst (asns ?st1))" using d0 by (simp add: fst_comp_entry)
  have s1: "process_record st nrecord = Inr ?st1"
    using assms(2) classify_netblock [OF d0 assms(3)] by (simp add: process_record_segments)
  have s2: "process_record ?st1 nrecord =
      Inr (?st1\<lparr>asns := map (\<lambda>(k, d). (k, d\<lparr>netblocks := netblocks d @ [?x]\<rparr>)) (asns ?st1)\<rparr>)"
    using assms(2) classify_netblock [OF d1 assms(3)] by (simp add: process_record_segments)
  show "parse_records st [nrecord] = Inr ?st1"
    by (simp add: s1)
  have "parse_records st [nrecord, nrecord] =
      Inr (?st1\<lparr>asns := map (\<lambda>(k, d). (k, d\<lparr>netblocks := netblocks d @ [?x]\<rparr>)) (asns ?st1)\<rparr>)"
    by (simp add: s1 s2)
  also have "?st1\<lparr>asns := map (\<lambda>(k, d). (k, d\<lparr>netblocks := netblocks d @ [?x]\<rparr>)) (asns ?st1)\<rparr>
      = st\<lparr>asns := map (\<lambda>(asnID, d). (asnID, d\<lparr>netblocks := netblocks d @ [?x, ?x]\<rparr>)) (asns st)\<rparr>"
    by (simp add: case_prod_unfold comp_def)
  finally show "parse_records st [nrecord, nrecord] =
      Inr (st\<lparr>asns := map (\<lambda>(asnID, d). (asnID, d\<lparr>netblocks := netblocks d @ [?x, ?x]\<rparr>)) (asns st)\<rparr>)" .
next
  let ?l = "record_left frecord" and ?v = "record_value frecord"
  let ?st1 = "st\<lparr>asns := map (\<lambda>(k, d). (k, d\<lparr>fqdn_list := fqdn_list d @ [?l]\<rparr>)) (asns st),
                  fqdns := AList.update ?l ?v (fqdns st)\<rparr>"
  have d0: "distinct (map fst (asns st))" using assms(1) by (simp add: distinct_keys_def)
  have d1: "distinct (map fst (asns ?st1))" using d0 by (simp add: fst_comp_entry)
  have s1: "process_record st frecord = Inr ?st1"
    using assms(4) classify_fqdn_ip [OF d0 assms(5,6)] by (simp add: process_record_segments)
  have s2: "process_record ?st1 frecord =
      Inr (?st1\<lparr>asns := map (\<lambda>(k, d). (k, d\<lparr>fqdn_list := fqdn_list d @ [?l]\<rparr>)) (asns ?st1),
                 fqdns := AList.update ?l ?v (fqdns ?st1)\<rparr>)"
    using assms(4) classify_fqdn_ip [OF d1 assms(5,6)] by (simp add: process_record_segments)
  show "parse_records st [frecord] = Inr ?st1"
    by (simp add: s1)
  have "parse_records st [frecord, frecord] =
      Inr (?st1\<lparr>asns := map (\<lambda>(k, d). (k, d\<lparr>fqdn_list := fqdn_list d @ [?l]\<rparr>)) (asns ?st1),
                 fqdns := AList.update ?l ?v (fqdns ?st1)\<rparr>)"
    by (simp add: s1 s2)
  also have "?st1\<lparr>asns := map (\<lambda>(k, d). (k, d\<lparr>fqdn_list := fqdn_list d @ [?l]\<rparr>)) (asns ?st1),
                 fqdns := AList.update ?l ?v (fqdns ?st1)\<rparr>
      = st\<lparr>asns := map (\<lambda>(asnID, d). (asnID, d\<lparr>fqdn_list := fqdn_list d @ [?l, ?l]\<rparr>)) (asns st),
             fqdns := AList.update ?l ?v (fqdns st)\<rparr>"
    by (simp add: case_prod_unfold comp_def)
  finally show "parse_records st [frecord, frecord] =
      Inr (st\<lparr>asns := map (\<lambda>(asnID, d). (asnID, d\<lparr>fqdn_list := fqdn_list d @ [?l, ?l]\<rparr>)) (asns st),
             fqdns := AList.update ?l ?v (fqdns st)\<rparr>)" .
qed

theorem repeated_relation_appends_twice_witness:
  "distinct_keys
     \<lparr>asns = [(''15133'', \<lparr>organization = ''Akamai Technologies'', netblocks = [],
                          fqdn_list = []\<rparr>)],
      fqdns = []\<rparr>
   \<and> 3 \<le> length (Split ''15133 (ASN) --> announces --> 93.184.0.0/16 (Netblock)'' '' --> '')
   \<and> HasSuffix (record_value ''15133 (ASN) --> announces --> 93.184.0.0/16 (Netblock)'')
         '' (Netblock)''
   \<and> 3 \<le> length (Split ''www.example.com (FQDN) --> a_record --> 93.184.216.34 (IPAddress)''
         '' --> '')
   \<and> HasSuffix (record_left ''www.example.com (FQDN) --> a_record --> 93.184.216.34 (IPAddress)'')
         ''(FQDN)''
   \<and> HasSuffix (record_value ''www.example.com (FQDN) --> a_record --> 93.184.216.34 (IPAddress)'')
         ''(IPAddress)''
   \<and> parse_records
        \<lparr>asns = [(''15133'', \<lparr>organization = ''Akamai Technologies'', netblocks = [],
                             fqdn_list = []\<rparr>)],
         fqdns = []\<rparr>
        [''15133 (ASN) --> announces --> 93.184.0.0/16 (Netblock)'',
         ''15133 (ASN) --> announces --> 93.184.0.0/16 (Netblock)'']
     = Inr \<lparr>asns = [(''15133'', \<lparr>organization = ''Akamai Technologies'',
                                 netblocks = [''93.184.0.0/16'', ''93.184.0.0/16''],
                                 fqdn_list = []\<rparr>)],
            fqdns = []\<rparr>
   \<and> parse_records
        \<lparr>asns = [(''15133'', \<lparr>organization = ''Akamai Technologies'', netblocks = [],
                             fqdn_list = []\<rparr>)],
         fqdns = []\<rparr>
        [''www.example.com (FQDN) --> a_record --> 93.184.216.34 (IPAddress)'',
         ''www.example.com (FQDN) --> a_record --> 93.184.216.34 (IPAddress)'']
     = Inr \<lparr>asns = [(''15133'', \<lparr>organization = ''Akamai Technologies'', netblocks = [],
                                 fqdn_list = [''www.example.com (FQDN)'',
                                              ''www.example.com (FQDN)'']\<rparr>)],
            fqdns = [(''www.example.com (FQDN)'', ''93.184.216.34 (IPAddress)'')]\<rparr>"
proof -
  let ?st = "\<lparr>asns = [(''15133'', \<lparr>organization = ''Akamai Technologies'', netblocks = [],
                             fqdn_list = []\<rparr>)],
         fqdns = []\<rparr>"
  let ?n = "''15133 (ASN) --> announces --> 93.184.0.0/16 (Netblock)''"
  let ?f = "''www.example.com (FQDN) --> a_record --> 93.184.216.34 (IPAddress)''"
  have h1: "distinct_keys ?st" by (simp add: distinct_keys_def)
  have h2: "3 \<le> length (Split ?n '' --> '')" by code_simp
  have h3: "HasSuffix (record_value ?n) '' (Netblock)''" by code_simp
  have h4: "3 \<le> length (Split ?f '' --> '')" by code_simp
  have h5: "HasSuffix (record_left ?f) ''(FQDN)''" by code_simp
  have h6: "HasSuffix (record_value ?f) ''(IPAddress)''" by code_simp
  have nb: "TrimSuffix (record_value ?n) '' (Netblock)'' = ''93.184.0.0/16''" by code_simp
  have l: "record_left ?f = ''www.example.com (FQDN)''" by code_simp
  have v: "record_value ?f = ''93.184.216.34 (IPAddress)''" by code_simp
  from repeated_relation_appends_twice [OF h1 h2 h3 h4 h5 h6] h1 h2 h3 h4 h5 h6
  show ?thesis
    by (simp add: nb l v)
qed

text \<open>
  C8. On the structured path a record with an empty CIDR string is skipped: the store is
  returned as it was, and the rest of the input is processed as if the record were not
  there. Three records with CIDR \<open>10.0.0.0/24\<close> and ASN 64512, fed to the empty map, leave
  one summary for 64512, named by the description of the first record, whose counter for
  \<open>10.0.0.0/24\<close> is 3.
\<close>

theorem update_summary_skips_and_counts:
  "(CIDRStr addr = [] \<longrightarrow>
      update_address s addr = Inr s \<and>
      update_addresses s (addr # rest) = update_addresses s rest)
   \<and> (CIDRStr a1 = ''10.0.0.0/24'' \<and> CIDRStr a2 = ''10.0.0.0/24'' \<and>
      CIDRStr a3 = ''10.0.0.0/24'' \<and> ASN a1 = 64512 \<and> ASN a2 = 64512 \<and> ASN a3 = 64512 \<longrightarrow>
      UpdateSummaryData \<lparr>Name = n, Addresses = [a1, a2, a3]\<rparr> empty_store =
        Inr \<lparr>table = [(64512, Some 0)],
             heap = [\<lparr>SummaryName = Description a1,
                      Netblocks = Some [(''10.0.0.0/24'', 3)]\<rparr>]\<rparr>)"
proof (intro conjI impI)
  assume "CIDRStr addr = []"
  then show "update_address s addr = Inr s"
    and "update_addresses s (addr # rest) = update_addresses s rest"
    by (simp_all add: update_address_skip)
next
  assume "CIDRStr a1 = ''10.0.0.0/24'' \<and> CIDRStr a2 = ''10.0.0.0/24'' \<and>
      CIDRStr a3 = ''10.0.0.0/24'' \<and> ASN a1 = 64512 \<and> ASN a2 = 64512 \<and> ASN a3 = 64512"
  then show "UpdateSummaryData \<lparr>Name = n, Addresses = [a1, a2, a3]\<rparr> empty_store =
        Inr \<lparr>table = [(64512, Some 0)],
             heap = [\<lparr>SummaryName = Description a1,
                      Netblocks = Some [(''10.0.0.0/24'', 3)]\<rparr>]\<rparr>"
    by (simp add: UpdateSummaryData_def update_address_def empty_store_def)
qed

theorem update_summary_skips_and_counts_witness:
  "CIDRStr \<lparr>Address = ''192.0.2.1'', ASN = 64512, CIDRStr = [], Description = ''Example Org''\<rparr> = []
   \<and> update_address
        \<lparr>table = [(64512, Some 0)],
         heap = [\<lparr>SummaryName = ''Example Org'', Netblocks = Some [(''10.0.0.0/24'', 3)]\<rparr>]\<rparr>
        \<lparr>Address = ''192.0.2.1'', ASN = 64512, CIDRStr = [], Description = ''Example Org''\<rparr>
     = Inr \<lparr>table = [(64512, Some 0)],
            heap = [\<lparr>SummaryName = ''Example Org'',
                     Netblocks = Some [(''10.0.0.0/24'', 3)]\<rparr>]\<rparr>
   \<and> UpdateSummaryData
        \<lparr>Name = ''www.example.com'',
         Addresses =
           [\<lparr>Address = ''10.0.0.1'', ASN = 64512, CIDRStr = ''10.0.0.0/24'',
             Description = ''Example Org''\<rparr>,
            \<lparr>Address = ''10.0.0.2'', ASN = 64512, CIDRStr = ''10.0.0.0/24'',
             Description = ''Another name''\<rparr>,
            \<lparr>Address = ''10.0.0.3'', ASN = 64512, CIDRStr = ''10.0.0.0/24'',
             Description = ''Example Org''\<rparr>]\<rparr>
        empty_store
     = Inr \<lparr>table = [(64512, Some 0)],
            heap = [\<lparr>SummaryName = ''Example Org'',
                     Netblocks = Some [(''10.0.0.0/24'', 3)]\<rparr>]\<rparr>"
  using update_summary_skips_and_counts
    [where addr = "\<lparr>Address = ''192.0.2.1'', ASN = 64512, CIDRStr = [],
                     Description = ''Example Org''\<rparr>"
       and s = "\<lparr>table = [(64512, Some 0)],
                 heap = [\<lparr>SummaryName = ''Example Org'',
                          Netblocks = Some [(''10.0.0.0/24'', 3)]\<rparr>]\<rparr>"
       and rest = "[]" and n = "''www.example.com''"
       and ?a1.0 = "\<lparr>Address = ''10.0.0.1'', ASN = 64512, CIDRStr = ''10.0.0.0/24'',
                     Description = ''Example Org''\<rparr>"
       and ?a2.0 = "\<lparr>Address = ''10.0.0.2'', ASN = 64512, CIDRStr = ''10.0.0.0/24'',
                     Description = ''Another name''\<rparr>"
       and ?a3.0 = "\<lparr>Address = ''10.0.0.3'', ASN = 64512, CIDRStr = ''10.0.0.0/24'',
                     Description = ''Example Org''\<rparr>"]
  by simp

text \<open>
  C9. A record that splits into fewer than three segments on \<open>" --> "\<close> leaves the whole
  state, the ASN map and the FQDN map, as it was.
\<close>

theorem short_record_no_change:
  "length (Split record '' --> '') < 3 \<Longrightarrow> process_record st record = Inr st"
  by (simp add: process_record_def)

theorem short_record_no_change_witness:
  "length (Split ''93.184.0.0/16 (Netblock)'' '' --> '') < 3
   \<and> process_record
        \<lparr>asns = [(''15133'', \<lparr>organization = ''Akamai Technologies'', netblocks = [],
                             fqdn_list = []\<rparr>)],
         fqdns = [(''www.example.com (FQDN)'', ''93.184.216.34 (IPAddress)'')]\<rparr>
        ''93.184.0.0/16 (Netblock)''
     = Inr \<lparr>asns = [(''15133'', \<lparr>organization = ''Akamai Technologies'', netblocks = [],
                                 fqdn_list = []\<rparr>)],
            fqdns = [(''www.example.com (FQDN)'', ''93.184.216.34 (IPAddress)'')]\<rparr>"
proof -
  have h: "length (Split ''93.184.0.0/16 (Netblock)'' '' --> '') < 3" by code_simp
  from short_record_no_change [OF h] h show ?thesis by simp
qed

text \<open>
  C10. The claim is that of two valid records with the same FQDN-tagged left label the
  later one decides the resolution. The Netblock test comes first in the classification:
  when the third segment of the later record carries the Netblock tag, the record is
  handled as a netblock and the FQDN map keeps the earlier resolution.
\<close>

theorem fqdn_netblock_record_counterexample:
  "summarize [''www.example.com (FQDN) --> a_record --> 93.184.216.34 (IPAddress)'',
              ''www.example.com (FQDN) --> contained_in --> 93.184.0.0/16 (Netblock)'']
   = Inr \<lparr>asns = [],
          fqdns = [(''www.example.com (FQDN)'', ''93.184.216.34 (IPAddress)'')]\<rparr>"
  by code_simp

text \<open>
  C10, as amended. Of two records with at least three segments and the same FQDN-tagged
  left label, where the third segment of the later one does not end with the Netblock
  tag, the later one decides: processing both, from any state, returns, and the FQDN map
  then holds the third segment of the later record for that label.
\<close>

theorem fqdn_last_write_wins:
  assumes "3 \<le> length (Split r1 '' --> '')" and "3 \<le> length (Split r2 '' --> '')"
    and "record_left r1 = record_left r2"
    and "HasSuffix (record_left r2) ''(FQDN)''"
    and "\<not> HasSuffix (record_value r2) '' (Netblock)''"
  shows "case parse_records st [r1, r2] of
           Inl e \<Rightarrow> False
         | Inr st' \<Rightarrow> map_of (fqdns st') (record_left r2) = Some (record_value r2)"
proof -
  from assms(3,4) have "HasSuffix (record_left r1) ''(FQDN)''" by simp
  then obtain st1 where st1: "classify_relation st (record_left r1) (record_value r1) = Inr st1"
    using classify_fqdn_total by blast
  obtain st2 where st2: "classify_relation st1 (record_left r2) (record_value r2) = Inr st2"
    and res: "map_of (fqdns st2) (record_left r2) = Some (record_value r2)"
    using classify_fqdn_resolves [OF assms(4,5)] by blast
  show ?thesis
    using assms(1,2) st1 st2 res by (simp add: process_record_segments)
qed

theorem fqdn_last_write_wins_witness:
  "3 \<le> length (Split ''www.example.com (FQDN) --> cname_record --> edge.example.net (FQDN)''
         '' --> '')
   \<and> 3 \<le> length (Split ''www.example.com (FQDN) --> a_record --> 93.184.216.34 (IPAddress)''
         '' --> '')
   \<and> record_left ''www.example.com (FQDN) --> cname_record --> edge.example.net (FQDN)''
     = record_left ''www.example.com (FQDN) --> a_record --> 93.184.216.34 (IPAddress)''
   \<and> HasSuffix (record_left ''www.example.com (FQDN) --> a_record --> 93.184.216.34 (IPAddress)'')
         ''(FQDN)''
   \<and> \<not> HasSuffix (record_value ''www.example.com (FQDN) --> a_record --> 93.184.216.34 (IPAddress)'')
         '' (Netblock)''
   \<and> (case parse_records empty_summary
            [''www.example.com (FQDN) --> cname_record --> edge.example.net (FQDN)'',
             ''www.example.com (FQDN) --> a_record --> 93.184.216.34 (IPAddress)''] of
         Inl e \<Rightarrow> False
       | Inr st' \<Rightarrow>
           map_of (fqdns st') ''www.example.com (FQDN)'' = Some ''93.184.216.34 (IPAddress)'')"
proof -
  let ?r1 = "''www.example.com (FQDN) --> cname_record --> edge.example.net (FQDN)''"
  let ?r2 = "''www.example.com (FQDN) --> a_record --> 93.184.216.34 (IPAddress)''"
  have h1: "3 \<le> length (Split ?r1 '' --> '')" by code_simp
  have h2: "3 \<le> length (Split ?r2 '' --> '')" by code_simp
  have l1: "record_left ?r1 = ''www.example.com (FQDN)''" by code_simp
  have l2: "record_left ?r2 = ''www.example.com (FQDN)''" by code_simp
  have v2: "record_value ?r2 = ''93.184.216.34 (IPAddress)''" by code_simp
  have h3: "record_left ?r1 = record_left ?r2" by (simp only: l1 l2)
  have h4: "HasSuffix (record_left ?r2) ''(FQDN)''" by code_simp
  have h5: "\<not> HasSuffix (record_value ?r2) '' (Netblock)''" by code_simp
  from fqdn_last_write_wins [OF h1 h2 h3 h4 h5, of empty_summary]
  have "case parse_records empty_summary [?r1, ?r2] of
           Inl e \<Rightarrow> False
         | Inr st' \<Rightarrow> map_of (fqdns st') ''www.example.com (FQDN)'' = Some ''93.184.216.34 (IPAddress)''"
    by (simp only: l2 v2)
  with h1 h2 h3 h4 h5 show ?thesis by blast
qed

end
